theory Spec2Isabelle
  imports Complex_Main "HOL-Library.Multiset"
begin

section \<open>Values shared by the provider and the view\<close>

text \<open>
  A Go \<^verbatim>\<open>error\<close> value is identified by its message. A run-time panic is kept apart
  from it: an error is returned to the caller, a panic unwinds the handler.
\<close>

datatype error = Error string

datatype panic = IndexOutOfRange | SliceBoundsOutOfRange | NilPointerDereference

datatype 'a result = Ok 'a | Failed error | Panicked panic

type_synonym bytes = string

subsection \<open>Decimal printing (\<^verbatim>\<open>strconv.Itoa\<close>, the verb \<^verbatim>\<open>%d\<close>)\<close>

definition digit :: "nat \<Rightarrow> char" where
  "digit d = char_of (of_char (CHR ''0'') + d)"

fun digits :: "nat \<Rightarrow> string" where
  "digits n = (if n < 10 then [digit n] else digits (n div 10) @ [digit (n mod 10)])"

definition Itoa :: "int \<Rightarrow> string" where
  "Itoa i = (if i < 0 then CHR ''-'' # digits (nat (- i)) else digits (nat i))"

subsection \<open>\<^verbatim>\<open>strings.ToLower\<close>\<close>

text \<open>
  The library lowers a string that holds only ASCII bytes byte by byte, and returns it
  unchanged when it has no upper-case letter. A string with a byte from 0x80 on goes
  through \<^verbatim>\<open>strings.Map(unicode.ToLower, s)\<close>; the Unicode tables are not part of this
  development, so that mapping is the parameter \<open>ulower\<close>.
\<close>

definition isASCII :: "char \<Rightarrow> bool" where
  "isASCII c = ((of_char c :: nat) < 128)"

definition isUpper :: "char \<Rightarrow> bool" where
  "isUpper c = ((of_char (CHR ''A'') :: nat) \<le> of_char c \<and> (of_char c :: nat) \<le> of_char (CHR ''Z''))"

definition lowerByte :: "char \<Rightarrow> char" where
  "lowerByte c = (if isUpper c then char_of ((of_char c :: nat) + 32) else c)"

definition ToLower :: "(string \<Rightarrow> string) \<Rightarrow> string \<Rightarrow> string" where
  "ToLower ulower s =
     (if list_all isASCII s
      then (if list_ex isUpper s then map lowerByte s else s)
      else ulower s)"

section \<open>The record\<close>

text \<open>
  The seven \<^verbatim>\<open>float64\<close> fields hold numbers decoded from JSON, which has neither NaN nor
  an infinity; on finite values the comparisons of \<^verbatim>\<open>float64\<close> are those of the numbers
  themselves, so the fields are typed \<open>real\<close>.
\<close>

record CryptoRecord =
  ID :: string
  Name :: string
  Symbol :: string
  PriceUSD :: real
  Change1h :: real
  Change24h :: real
  Change7d :: real
  MarketCap :: real
  Volume24h :: real
  TotalSupply :: real

section \<open>The provider\<close>

subsection \<open>The world \<^verbatim>\<open>GetRecords\<close> runs in\<close>

text \<open>
  \<^verbatim>\<open>GetRecords\<close> reads the clock, the cache file and the HTTP client, writes the cache file
  and the log, and sleeps. All of that is an explicit state.
  \<^item> \<open>now\<close> is the clock, in nanoseconds as \<^verbatim>\<open>time.Duration\<close> counts.
  \<^item> \<open>cacheFile\<close> is what \<^verbatim>\<open>os.Stat\<close> finds at the cache path: an error, or a file with its
    modification time and what \<^verbatim>\<open>os.ReadFile\<close> gives for it.
  \<^item> \<open>writeFault\<close> says how the next \<^verbatim>\<open>os.WriteFile\<close> ends: \<open>None\<close> when it succeeds,
    \<open>Some (e, f)\<close> when it fails with \<open>e\<close> and leaves \<open>f\<close> at the cache path.
  \<^item> \<open>http url i\<close> is the outcome of the \<open>i\<close>-th call of \<^verbatim>\<open>client.Get\<close>, and \<open>requests\<close>
    counts the calls made.
  \<^item> \<open>sleeps\<close> lists the arguments of \<^verbatim>\<open>time.Sleep\<close>, oldest first.
  \<^item> \<open>logged\<close> lists the lines given to the logger, oldest first.
\<close>

record FileInfo =
  ModTime :: int
  contents :: "error + bytes"

record response =
  StatusCode :: int
  Body :: "error + bytes"

datatype log_entry = LogResult string "string option" | LogError string error

record world =
  now :: int
  cacheFile :: "error + FileInfo"
  writeFault :: "(error \<times> (error + FileInfo)) option"
  http :: "string \<Rightarrow> nat \<Rightarrow> error + response"
  requests :: nat
  sleeps :: "int list"
  logged :: "log_entry list"

definition Second :: int where
  "Second = 1000000000"

definition StatusTooManyRequests :: int where
  "StatusTooManyRequests = 429"

definition logOperation :: "string \<Rightarrow> string option \<Rightarrow> error option \<Rightarrow> world \<Rightarrow> world" where
  "logOperation operation res err w =
     (case err of
        Some e \<Rightarrow> w\<lparr>logged := logged w @ [LogError operation e]\<rparr>
      | None \<Rightarrow> w\<lparr>logged := logged w @ [LogResult operation res]\<rparr>)"

definition clientGet :: "string \<Rightarrow> world \<Rightarrow> (error + response) \<times> world" where
  "clientGet url w = (http w url (requests w), w\<lparr>requests := Suc (requests w)\<rparr>)"

definition Sleep :: "int \<Rightarrow> world \<Rightarrow> world" where
  "Sleep d w = w\<lparr>now := now w + d, sleeps := sleeps w @ [d]\<rparr>"

definition WriteFile :: "bytes \<Rightarrow> world \<Rightarrow> error option \<times> world" where
  "WriteFile data w =
     (case writeFault w of
        None \<Rightarrow> (None, w\<lparr>cacheFile := Inr \<lparr>ModTime = now w, contents = Inr data\<rparr>\<rparr>)
      | Some (e, f) \<Rightarrow> (Some e, w\<lparr>cacheFile := f\<rparr>))"

text \<open>
  \<^verbatim>\<open>json.Unmarshal(data, &coins)\<close> reads the variable it decodes into and may leave it
  changed when it fails, so the decoder takes the current \<open>coins\<close> and returns the new
  one with its error. Both directions of \<^verbatim>\<open>encoding/json\<close> are parameters.
\<close>

record json =
  Unmarshal :: "bytes \<Rightarrow> CryptoRecord list \<Rightarrow> error option \<times> CryptoRecord list"
  Marshal :: "CryptoRecord list \<Rightarrow> error + bytes"

text \<open>
  What the development asks of \<^verbatim>\<open>encoding/json\<close> where a snapshot is read back: a record
  list the decoder has produced can be serialized, and the decoder takes it back from
  its serialization, into an empty variable, as it was.
\<close>

definition roundTrips :: "json \<Rightarrow> bool" where
  "roundTrips J =
     (\<forall>data coins rs. Unmarshal J data coins = (None, rs)
        \<longrightarrow> (\<exists>d. Marshal J rs = Inr d \<and> Unmarshal J d [] = (None, rs)))"

subsection \<open>\<^verbatim>\<open>GetRecords\<close>, lines 79 to 133\<close>

text \<open>
  The cache check, lines 83 to 93. \<open>Inl coins\<close> is the early return of line 89;
  \<open>Inr (err, coins)\<close> is falling through with the outer \<^verbatim>\<open>err\<close> (that of \<^verbatim>\<open>os.Stat\<close>; the
  inner ones are shadowed) and with \<open>coins\<close> as a failed decode left it.
\<close>

definition checkCache ::
  "json \<Rightarrow> world \<Rightarrow> (CryptoRecord list + (error option \<times> CryptoRecord list)) \<times> world" where
  "checkCache J w =
     (case cacheFile w of
        Inl e \<Rightarrow> (Inr (Some e, []), w)
      | Inr cacheInfo \<Rightarrow>
          if now w - ModTime cacheInfo < 30 * Second then
            (case contents cacheInfo of
               Inl e \<Rightarrow> (Inr (None, []), w)
             | Inr data \<Rightarrow>
                 (case Unmarshal J data [] of
                    (None, coins) \<Rightarrow>
                      (Inl coins,
                       logOperation ''Cache Hit''
                         (Some (''Fetched '' @ Itoa (int (length coins)) @ '' records from cache''))
                         None w)
                  | (Some e, coins) \<Rightarrow> (Inr (None, coins), w)))
          else (Inr (None, []), w))"

definition requestURL :: "int \<Rightarrow> int \<Rightarrow> string" where
  "requestURL page perPage =
     ''https://api.coingecko.com/api/v3/coins/markets?vs_currency=usd&order=market_cap_desc&per_page=''
     @ Itoa perPage @ ''&page='' @ Itoa page
     @ ''&sparkline=false&price_change_percentage=1h,24h,7d''"

text \<open>
  The retry loop, lines 99 to 105, with its variables \<^verbatim>\<open>retries\<close>, \<^verbatim>\<open>delay\<close>, \<^verbatim>\<open>resp\<close> and
  \<^verbatim>\<open>err\<close>. \<^verbatim>\<open>client.Get\<close> sets both \<^verbatim>\<open>resp\<close> and \<^verbatim>\<open>err\<close>: a response and no error, or
  no response and an error.
\<close>

function retryLoop ::
  "string \<Rightarrow> int \<Rightarrow> int \<Rightarrow> response option \<Rightarrow> error option \<Rightarrow> world
     \<Rightarrow> (response option \<times> error option) \<times> world" where
  "retryLoop url retries delay resp err w =
     (if retries < 5 then
        (case clientGet url w of
           (Inr r, w1) \<Rightarrow>
             if StatusCode r \<noteq> StatusTooManyRequests then ((Some r, None), w1)
             else retryLoop url (retries + 1) (delay * 2) (Some r) None (Sleep delay w1)
         | (Inl e, w1) \<Rightarrow>
             retryLoop url (retries + 1) (delay * 2) None (Some e) (Sleep delay w1))
      else ((resp, err), w))"
  by pat_completeness auto
termination
  by (relation "measure (\<lambda>(url, retries, delay, resp, err, w). nat (5 - retries))") auto

declare retryLoop.simps [simp del]

text \<open>
  An attempt fails when the test of line 101 does not break the loop; \<open>lastOutcome\<close>
  is what an attempt leaves in \<^verbatim>\<open>resp\<close> and \<^verbatim>\<open>err\<close>.
\<close>

definition attemptFailed :: "error + response \<Rightarrow> bool" where
  "attemptFailed x = (case x of Inl e \<Rightarrow> True | Inr r \<Rightarrow> StatusCode r = StatusTooManyRequests)"

definition lastOutcome :: "error + response \<Rightarrow> response option \<times> error option" where
  "lastOutcome x = (case x of Inl e \<Rightarrow> (None, Some e) | Inr r \<Rightarrow> (Some r, None))"

text \<open>Lines 107 to 132: what follows the loop.\<close>

definition afterLoop ::
  "json \<Rightarrow> CryptoRecord list \<Rightarrow> response option \<Rightarrow> error option \<Rightarrow> world
     \<Rightarrow> CryptoRecord list result \<times> world" where
  "afterLoop J coins resp err w =
     (case err of
        Some e \<Rightarrow> (Failed e, logOperation ''API Request'' None (Some e) w)
      | None \<Rightarrow>
          (case resp of
             None \<Rightarrow> (Panicked NilPointerDereference, w)
           | Some r \<Rightarrow>
               (case Body r of
                  Inl e \<Rightarrow> (Failed e, logOperation ''Read Response Body'' None (Some e) w)
                | Inr body \<Rightarrow>
                    let w1 = logOperation ''JSON Response'' (Some body) None w in
                    (case Unmarshal J body coins of
                       (Some e, coins') \<Rightarrow>
                         (Failed e, logOperation ''Unmarshal Response'' None (Some e) w1)
                     | (None, coins') \<Rightarrow>
                         let w2 = (case Marshal J coins' of
                                     Inr data \<Rightarrow> snd (WriteFile data w1)
                                   | Inl e \<Rightarrow> w1)
                         in (Ok coins',
                             logOperation ''Fetch Records''
                               (Some (''Fetched '' @ Itoa (int (length coins')) @ '' records''))
                               None w2)))))"

text \<open>Lines 95 to 132: the request, entered with \<^verbatim>\<open>err\<close> and \<^verbatim>\<open>coins\<close> as the cache check left them.\<close>

definition fetch ::
  "json \<Rightarrow> int \<Rightarrow> int \<Rightarrow> error option \<Rightarrow> CryptoRecord list \<Rightarrow> world
     \<Rightarrow> CryptoRecord list result \<times> world" where
  "fetch J page perPage err coins w =
     (case retryLoop (requestURL page perPage) 0 Second None err w of
        ((resp, err'), w1) \<Rightarrow> afterLoop J coins resp err' w1)"

definition GetRecords :: "json \<Rightarrow> int \<Rightarrow> int \<Rightarrow> world \<Rightarrow> CryptoRecord list result \<times> world" where
  "GetRecords J page perPage w =
     (case checkCache J w of
        (Inl coins, w1) \<Rightarrow> (Ok coins, w1)
      | (Inr (err, coins), w1) \<Rightarrow> fetch J page perPage err coins w1)"

section \<open>The view state\<close>

subsection \<open>The widgets and the library\<close>

text \<open>
  A row of the table has ten cells. The first is the rank, printed by \<^verbatim>\<open>strconv.Itoa\<close>;
  the other nine are formatted from one record (cell 1 is its \<^verbatim>\<open>Name\<close>), and a row keeps
  that record in place of the formatted text.
\<close>

record row =
  Rank :: string
  coin :: CryptoRecord

record table =
  cols :: "(string \<times> int) list"
  rows :: "row list"
  cursor :: int
  focus :: bool
  width :: int
  height :: int

datatype msg = KeyMsg string | TickMsg | WindowSizeMsg int int | OtherMsg

datatype cmd = Quit | Printf string | Batch "cmd option list" | WidgetCmd nat

record model =
  table :: table
  spinner :: nat
  loading :: bool
  records :: "CryptoRecord list"
  page :: int
  perPage :: int
  sortBy :: string
  sortAsc :: bool

text \<open>
  What the program calls and does not define: \<^verbatim>\<open>sort.Slice\<close> with a comparison that may
  panic, the Unicode path of \<^verbatim>\<open>strings.ToLower\<close>, and the \<^verbatim>\<open>Update\<close> methods of the two
  widgets.
\<close>

record lib =
  sort_Slice ::
    "(CryptoRecord \<Rightarrow> CryptoRecord \<Rightarrow> panic + bool) \<Rightarrow> CryptoRecord list \<Rightarrow> panic + CryptoRecord list"
  unicode_ToLower :: "string \<Rightarrow> string"
  table_Update :: "msg \<Rightarrow> table \<Rightarrow> table \<times> cmd option"
  spinner_Update :: "msg \<Rightarrow> nat \<Rightarrow> nat \<times> cmd option"

definition SelectedRow :: "table \<Rightarrow> row option" where
  "SelectedRow t =
     (if cursor t < 0 \<or> cursor t \<ge> int (length (rows t)) then None
      else Some (rows t ! nat (cursor t)))"

subsection \<open>\<^verbatim>\<open>sort.Slice\<close> on a short slice\<close>

text \<open>
  On a slice of at most 12 elements \<^verbatim>\<open>sort.Slice\<close> is the insertion sort of the library:
  for \<open>i\<close> from 1 on, element \<open>i\<close> moves left while it is less than its left neighbour.
  \<open>insertLeft\<close> holds the part already ordered with its last element first. A panic of
  the comparison ends the sort.
\<close>

fun insertLeft ::
  "('a \<Rightarrow> 'a \<Rightarrow> panic + bool) \<Rightarrow> 'a \<Rightarrow> 'a list \<Rightarrow> panic + 'a list" where
  "insertLeft lessf x [] = Inr [x]"
| "insertLeft lessf x (y # ys) =
     (case lessf x y of
        Inl p \<Rightarrow> Inl p
      | Inr b \<Rightarrow>
          if b then (case insertLeft lessf x ys of Inl p \<Rightarrow> Inl p | Inr zs \<Rightarrow> Inr (y # zs))
          else Inr (x # y # ys))"

fun insertionLoop ::
  "('a \<Rightarrow> 'a \<Rightarrow> panic + bool) \<Rightarrow> 'a list \<Rightarrow> 'a list \<Rightarrow> panic + 'a list" where
  "insertionLoop lessf acc [] = Inr (rev acc)"
| "insertionLoop lessf acc (x # xs) =
     (case insertLeft lessf x acc of
        Inl p \<Rightarrow> Inl p
      | Inr acc' \<Rightarrow> insertionLoop lessf acc' xs)"

definition insertionSort :: "('a \<Rightarrow> 'a \<Rightarrow> panic + bool) \<Rightarrow> 'a list \<Rightarrow> panic + 'a list" where
  "insertionSort lessf xs = insertionLoop lessf [] xs"

text \<open>
  What the development asks of \<^verbatim>\<open>sort.Slice\<close> on a slice of any length: it only swaps
  elements; it panics only if the comparison does; and on two or more elements it
  compares every element with some other one, so that an element on which every
  comparison panics makes the sort panic.
\<close>

definition sortCompares :: "lib \<Rightarrow> bool" where
  "sortCompares L =
     (\<forall>lessf xs p.
        2 \<le> length xs
        \<and> (\<forall>a b. lessf a b = Inl p \<or> (\<exists>v. lessf a b = Inr v))
        \<and> (\<exists>x\<in>set xs. \<forall>y. lessf x y = Inl p \<and> lessf y x = Inl p)
        \<longrightarrow> sort_Slice L lessf xs = Inl p)"

definition sortPermutes :: "lib \<Rightarrow> bool" where
  "sortPermutes L = (\<forall>lessf xs ys. sort_Slice L lessf xs = Inr ys \<longrightarrow> mset ys = mset xs)"

definition sortReturns :: "lib \<Rightarrow> bool" where
  "sortReturns L =
     (\<forall>lessf xs. (\<forall>a\<in>set xs. \<forall>b\<in>set xs. \<exists>v. lessf a b = Inr v)
        \<longrightarrow> (\<exists>ys. sort_Slice L lessf xs = Inr ys))"

text \<open>
  And a panic of \<^verbatim>\<open>sort.Slice\<close> is a panic of the comparison, on two elements of the
  slice: the sort has no panic of its own.
\<close>

definition sortPanicsInLess :: "lib \<Rightarrow> bool" where
  "sortPanicsInLess L =
     (\<forall>lessf xs p. sort_Slice L lessf xs = Inl p
        \<longrightarrow> (\<exists>a\<in>set xs. \<exists>b\<in>set xs. lessf a b = Inl p))"

subsection \<open>\<^verbatim>\<open>updateTable\<close>, lines 214 to 275\<close>

definition getSortArrow :: "bool \<Rightarrow> string" where
  "getSortArrow asc =
     (if asc then [CHR '' '', CHR 0xE2, CHR 0x86, CHR 0x91]
      else [CHR '' '', CHR 0xE2, CHR 0x86, CHR 0x93])"

definition columns :: "(string \<times> int) list" where
  "columns =
     [(''Rank'', 6), (''Name'', 20), (''Symbol'', 10), (''Price (USD)'', 15), (''1h'', 8),
      (''24h'', 8), (''7d'', 8), (''Market Cap'', 15), (''Volume (24h)'', 15),
      (''Total Supply'', 15)]"

definition sortColumn :: "string \<Rightarrow> nat option" where
  "sortColumn k =
     (if k = ''r'' then Some 0 else if k = ''n'' then Some 1 else if k = ''p'' then Some 3
      else if k = ''1'' then Some 4 else if k = ''2'' then Some 5 else if k = ''7'' then Some 6
      else if k = ''m'' then Some 7 else if k = ''a'' then Some 8 else if k = ''t'' then Some 9
      else None)"

definition windowStart :: "model \<Rightarrow> int" where
  "windowStart m = (page m - 1) * perPage m"

definition windowEnd :: "model \<Rightarrow> int" where
  "windowEnd m =
     (let end = windowStart m + perPage m
      in if end > int (length (records m)) then int (length (records m)) else end)"

text \<open>
  \<^verbatim>\<open>m.records[start:end]\<close> panics unless \<open>0 \<le> start \<le> end \<le> cap\<close>; \<open>end\<close> is at most the
  length here, so the capacity never decides and the length stands for it.
\<close>

definition updateTable :: "model \<Rightarrow> panic + model" where
  "updateTable m =
     (let start = windowStart m;
          end = windowEnd m;
          columns' = (case sortColumn (sortBy m) of
                        None \<Rightarrow> columns
                      | Some i \<Rightarrow>
                          columns[i := (fst (columns ! i) @ getSortArrow (sortAsc m),
                                        snd (columns ! i))]);
          m1 = m\<lparr>table := (table m)\<lparr>cols := columns'\<rparr>\<rparr>
      in if 0 \<le> start \<and> start \<le> end \<and> end \<le> int (length (records m)) then
           let window = take (nat (end - start)) (drop (nat start) (records m));
               rows' = map (\<lambda>(i, record). \<lparr>Rank = Itoa (int i + 1 + start), coin = record\<rparr>)
                         (enumerate 0 window)
           in Inr (m1\<lparr>table := (table m1)\<lparr>rows := rows'\<rparr>\<rparr>)
         else Inl SliceBoundsOutOfRange)"

subsection \<open>\<^verbatim>\<open>sortRecords\<close>, lines 277 to 343\<close>

text \<open>
  Each case of the switch hands \<^verbatim>\<open>sort.Slice\<close> its own closure; the closures are named
  after their case. A closure reads \<^verbatim>\<open>m.sortAsc\<close> and the two records at the indices it
  is given. Indexing the lowered name at 0 panics on the empty string, the left operand
  first.
\<close>

definition less_r :: "bool \<Rightarrow> CryptoRecord \<Rightarrow> CryptoRecord \<Rightarrow> panic + bool" where
  "less_r asc a b = Inr (if asc then MarketCap a < MarketCap b else MarketCap a > MarketCap b)"

definition firstByte :: "string \<Rightarrow> panic + nat" where
  "firstByte s = (case s of [] \<Rightarrow> Inl IndexOutOfRange | c # _ \<Rightarrow> Inr (of_char c))"

definition less_n :: "(string \<Rightarrow> string) \<Rightarrow> bool \<Rightarrow> CryptoRecord \<Rightarrow> CryptoRecord \<Rightarrow> panic + bool" where
  "less_n ulower asc a b =
     (case firstByte (ToLower ulower (Name a)) of
        Inl p \<Rightarrow> Inl p
      | Inr x \<Rightarrow>
          (case firstByte (ToLower ulower (Name b)) of
             Inl p \<Rightarrow> Inl p
           | Inr y \<Rightarrow> Inr (if asc then x < y else x > y)))"

definition less_p :: "bool \<Rightarrow> CryptoRecord \<Rightarrow> CryptoRecord \<Rightarrow> panic + bool" where
  "less_p asc a b = Inr (if asc then PriceUSD a < PriceUSD b else PriceUSD a > PriceUSD b)"

definition less_1 :: "bool \<Rightarrow> CryptoRecord \<Rightarrow> CryptoRecord \<Rightarrow> panic + bool" where
  "less_1 asc a b = Inr (if asc then Change1h a < Change1h b else Change1h a > Change1h b)"

definition less_2 :: "bool \<Rightarrow> CryptoRecord \<Rightarrow> CryptoRecord \<Rightarrow> panic + bool" where
  "less_2 asc a b = Inr (if asc then Change24h a < Change24h b else Change24h a > Change24h b)"

definition less_7 :: "bool \<Rightarrow> CryptoRecord \<Rightarrow> CryptoRecord \<Rightarrow> panic + bool" where
  "less_7 asc a b = Inr (if asc then Change7d a < Change7d b else Change7d a > Change7d b)"

definition less_m :: "bool \<Rightarrow> CryptoRecord \<Rightarrow> CryptoRecord \<Rightarrow> panic + bool" where
  "less_m asc a b = Inr (if asc then MarketCap a < MarketCap b else MarketCap a > MarketCap b)"

definition less_a :: "bool \<Rightarrow> CryptoRecord \<Rightarrow> CryptoRecord \<Rightarrow> panic + bool" where
  "less_a asc a b = Inr (if asc then Volume24h a < Volume24h b else Volume24h a > Volume24h b)"

definition less_t :: "bool \<Rightarrow> CryptoRecord \<Rightarrow> CryptoRecord \<Rightarrow> panic + bool" where
  "less_t asc a b = Inr (if asc then TotalSupply a < TotalSupply b else TotalSupply a > TotalSupply b)"

definition sortSlice ::
  "lib \<Rightarrow> (CryptoRecord \<Rightarrow> CryptoRecord \<Rightarrow> panic + bool) \<Rightarrow> model \<Rightarrow> panic + model" where
  "sortSlice L lessf m =
     (case sort_Slice L lessf (records m) of
        Inl p \<Rightarrow> Inl p
      | Inr rs \<Rightarrow> Inr (m\<lparr>records := rs\<rparr>))"

definition sortRecords :: "lib \<Rightarrow> model \<Rightarrow> panic + model" where
  "sortRecords L m =
     (if sortBy m = ''r'' then sortSlice L (less_r (sortAsc m)) m
      else if sortBy m = ''n'' then sortSlice L (less_n (unicode_ToLower L) (sortAsc m)) m
      else if sortBy m = ''p'' then sortSlice L (less_p (sortAsc m)) m
      else if sortBy m = ''1'' then sortSlice L (less_1 (sortAsc m)) m
      else if sortBy m = ''2'' then sortSlice L (less_2 (sortAsc m)) m
      else if sortBy m = ''7'' then sortSlice L (less_7 (sortAsc m)) m
      else if sortBy m = ''m'' then sortSlice L (less_m (sortAsc m)) m
      else if sortBy m = ''a'' then sortSlice L (less_a (sortAsc m)) m
      else if sortBy m = ''t'' then sortSlice L (less_t (sortAsc m)) m
      else Inr m)"

subsection \<open>\<^verbatim>\<open>Update\<close>, lines 157 to 205\<close>

text \<open>
  The switch either panics, returns at once (\<^verbatim>\<open>q\<close>, \<^verbatim>\<open>enter\<close>, a tick while loading), or
  falls through to the \<^verbatim>\<open>Update\<close> of the table at lines 203 and 204.
\<close>

datatype flow = Panic panic | Return "model \<times> cmd option" | Continue model

definition sortKeys :: "string list" where
  "sortKeys = [''r'', ''n'', ''p'', ''1'', ''2'', ''7'', ''m'', ''a'', ''t'']"

definition toggleSort :: "string \<Rightarrow> model \<Rightarrow> model" where
  "toggleSort k m =
     (if sortBy m = k then m\<lparr>sortAsc := \<not> sortAsc m\<rparr>
      else m\<lparr>sortBy := k, sortAsc := True\<rparr>)"

definition keySwitch :: "lib \<Rightarrow> model \<Rightarrow> string \<Rightarrow> flow" where
  "keySwitch L m k =
     (if k = ''esc'' then
        Continue (m\<lparr>table := (table m)\<lparr>focus := \<not> focus (table m)\<rparr>\<rparr>)
      else if k = ''q'' \<or> k = ''ctrl+c'' then Return (m, Some Quit)
      else if k = ''enter'' then
        (case SelectedRow (table m) of
           None \<Rightarrow> Panic IndexOutOfRange
         | Some r \<Rightarrow> Return (m, Some (Printf (''Selected: '' @ Name (coin r)))))
      else if k = ''right'' then
        (if page m * perPage m < int (length (records m)) then
           (case updateTable (m\<lparr>page := page m + 1\<rparr>) of
              Inl p \<Rightarrow> Panic p
            | Inr m' \<Rightarrow> Continue m')
         else Continue m)
      else if k = ''left'' then
        (if page m > 1 then
           (case updateTable (m\<lparr>page := page m - 1\<rparr>) of
              Inl p \<Rightarrow> Panic p
            | Inr m' \<Rightarrow> Continue m')
         else Continue m)
      else if k \<in> set sortKeys then
        (case sortRecords L (toggleSort k m) of
           Inl p \<Rightarrow> Panic p
         | Inr m1 \<Rightarrow>
             (case updateTable m1 of
                Inl p \<Rightarrow> Panic p
              | Inr m2 \<Rightarrow> Continue m2))
      else Continue m)"

definition Update :: "lib \<Rightarrow> model \<Rightarrow> msg \<Rightarrow> panic + model \<times> cmd option" where
  "Update L m msg =
     (case (case msg of
              KeyMsg k \<Rightarrow> keySwitch L m k
            | TickMsg \<Rightarrow>
                if loading m then
                  (case spinner_Update L msg (spinner m) of
                     (s, c) \<Rightarrow> Return (m\<lparr>spinner := s\<rparr>, Some (Batch [c])))
                else Continue m
            | WindowSizeMsg wd ht \<Rightarrow>
                Continue (m\<lparr>table := (table m)\<lparr>width := wd, height := ht - 2\<rparr>\<rparr>)
            | OtherMsg \<Rightarrow> Continue m) of
        Panic p \<Rightarrow> Inl p
      | Return r \<Rightarrow> Inr r
      | Continue m' \<Rightarrow>
          (case table_Update L msg (table m') of
             (t, c) \<Rightarrow> Inr (m'\<lparr>table := t\<rparr>, c)))"

text \<open>The model that \<^verbatim>\<open>main\<close> starts the program with, line 405.\<close>

definition initialModel :: "table \<Rightarrow> nat \<Rightarrow> CryptoRecord list \<Rightarrow> model" where
  "initialModel t sp rs =
     \<lparr>table = t, spinner = sp, loading = False, records = rs, page = 1, perPage = 50,
      sortBy = ''r'', sortAsc = True\<rparr>"

text \<open>
  The states of the program: the model of line 405, whatever the widgets and the records
  are, and every model a returning \<^verbatim>\<open>Update\<close> makes of one of them, for any message.
\<close>

inductive reachable :: "lib \<Rightarrow> model \<Rightarrow> bool" for L :: lib where
  start: "reachable L (initialModel t sp rs)"
| step: "reachable L m \<Longrightarrow> Update L m msg = Inr (m', c) \<Longrightarrow> reachable L m'"

definition pageInRange :: "model \<Rightarrow> bool" where
  "pageInRange m =
     (perPage m = 50 \<and> 1 \<le> page m
      \<and> (page m = 1 \<or> (page m - 1) * perPage m < int (length (records m))))"

section \<open>Instances for running the model\<close>

text \<open>
  Closed instances of the parameters, on which the definitions above evaluate:
  \<^item> \<open>shortLib\<close> sorts by insertion, as \<^verbatim>\<open>sort.Slice\<close> does on a short slice, never meets
    a non-ASCII name, and has widgets that ignore every message;
  \<^item> \<open>cannedJSON\<close> is a codec that knows two documents;
  \<^item> \<open>coldWorld\<close> has no cache file, a writable cache path and a server that answers
    every request with status 200 and the document of \<open>twoCoins\<close>.
\<close>

definition shortLib :: lib where
  "shortLib =
     \<lparr>sort_Slice = insertionSort, unicode_ToLower = (\<lambda>s. s),
      table_Update = (\<lambda>msg t. (t, None)), spinner_Update = (\<lambda>msg s. (s, None))\<rparr>"

definition coinOf :: "string \<Rightarrow> real \<Rightarrow> CryptoRecord" where
  "coinOf name cap =
     \<lparr>ID = name, Name = name, Symbol = name, PriceUSD = 1, Change1h = 0, Change24h = 0,
      Change7d = 0, MarketCap = cap, Volume24h = 0, TotalSupply = 0\<rparr>"

definition emptyTable :: table where
  "emptyTable = \<lparr>cols = columns, rows = [], cursor = 0, focus = True, width = 0, height = 10\<rparr>"

definition twoCoins :: "CryptoRecord list" where
  "twoCoins = [coinOf ''Bitcoin'' 5, coinOf ''Ethereum'' 3]"

definition twoCoinsJSON :: bytes where
  "twoCoinsJSON = ''[{name:Bitcoin,market_cap:5},{name:Ethereum,market_cap:3}]''"

definition cannedJSON :: json where
  "cannedJSON =
     \<lparr>Unmarshal = (\<lambda>data coins.
        if data = twoCoinsJSON then (None, twoCoins)
        else if data = ''[]'' then (None, [])
        else (Some (Error ''json: cannot unmarshal''), coins)),
      Marshal = (\<lambda>coins.
        if coins = twoCoins then Inr twoCoinsJSON
        else if coins = [] then Inr ''[]''
        else Inl (Error ''json: unsupported value''))\<rparr>"

definition coldWorld :: world where
  "coldWorld =
     \<lparr>now = 0, cacheFile = Inl (Error ''stat crypto_cache.json: no such file or directory''),
      writeFault = None,
      http = (\<lambda>url i. Inr \<lparr>StatusCode = 200, Body = Inr twoCoinsJSON\<rparr>),
      requests = 0, sleeps = [], logged = []\<rparr>"

definition tooManyRequests :: "bytes \<Rightarrow> error + response" where
  "tooManyRequests body = Inr \<lparr>StatusCode = 429, Body = Inr body\<rparr>"

section \<open>The provider: retry loop and cache\<close>

lemma Itoa_0: "Itoa 0 = ''0''"
  by code_simp

subsection \<open>One turn of the loop\<close>

lemma retryLoop_success:
  "retries < 5 \<Longrightarrow> http w url (requests w) = Inr r \<Longrightarrow> StatusCode r \<noteq> StatusTooManyRequests \<Longrightarrow>
   retryLoop url retries delay resp err w = ((Some r, None), w\<lparr>requests := Suc (requests w)\<rparr>)"
  by (subst retryLoop.simps) (simp add: clientGet_def)

lemma retryLoop_429:
  "retries < 5 \<Longrightarrow> http w url (requests w) = Inr r \<Longrightarrow> StatusCode r = StatusTooManyRequests \<Longrightarrow>
   retryLoop url retries delay resp err w =
   retryLoop url (retries + 1) (delay * 2) (Some r) None (Sleep delay (w\<lparr>requests := Suc (requests w)\<rparr>))"
  by (subst retryLoop.simps) (simp add: clientGet_def)

lemma retryLoop_error:
  "retries < 5 \<Longrightarrow> http w url (requests w) = Inl e \<Longrightarrow>
   retryLoop url retries delay resp err w =
   retryLoop url (retries + 1) (delay * 2) None (Some e) (Sleep delay (w\<lparr>requests := Suc (requests w)\<rparr>))"
  by (subst retryLoop.simps) (simp add: clientGet_def)

lemma retryLoop_exit:
  "\<not> retries < 5 \<Longrightarrow> retryLoop url retries delay resp err w = ((resp, err), w)"
  by (subst retryLoop.simps) simp

lemma retryLoop_failed:
  "retries < 5 \<Longrightarrow> attemptFailed (http w url (requests w)) \<Longrightarrow>
   retryLoop url retries delay resp err w =
   retryLoop url (retries + 1) (delay * 2) (fst (lastOutcome (http w url (requests w))))
     (snd (lastOutcome (http w url (requests w))))
     (Sleep delay (w\<lparr>requests := Suc (requests w)\<rparr>))"
  by (cases "http w url (requests w)")
     (simp_all add: attemptFailed_def lastOutcome_def retryLoop_error retryLoop_429)

subsection \<open>The loop issues a request\<close>

lemma requests_retryLoop:
  "retries < 5 \<Longrightarrow> requests w < requests (snd (retryLoop url retries delay resp err w))"
proof (induction "nat (5 - retries)" arbitrary: retries delay resp err w)
  case 0
  then show ?case by simp
next
  case (Suc n)
  let ?w1 = "Sleep delay (w\<lparr>requests := Suc (requests w)\<rparr>)"
  have step: "requests w < requests (snd (retryLoop url (retries + 1) (delay * 2) resp' err' ?w1))"
    for resp' err'
  proof (cases "retries + 1 < 5")
    case True
    with Suc have "requests ?w1 < requests (snd (retryLoop url (retries + 1) (delay * 2) resp' err' ?w1))"
      by (intro Suc.hyps(1)) auto
    then show ?thesis by (simp add: Sleep_def)
  next
    case False
    then show ?thesis by (simp add: retryLoop_exit Sleep_def)
  qed
  show ?case
  proof (cases "http w url (requests w)")
    case (Inl e)
    with Suc.prems step show ?thesis by (simp add: retryLoop_error)
  next
    case (Inr r)
    with Suc.prems step show ?thesis
      by (cases "StatusCode r = StatusTooManyRequests") (simp_all add: retryLoop_429 retryLoop_success)
  qed
qed

lemma afterLoop_requests: "requests (snd (afterLoop J coins resp err w)) = requests w"
  by (auto simp: afterLoop_def logOperation_def WriteFile_def Let_def
           split: option.splits sum.splits prod.splits)

lemma afterLoop_sleeps: "sleeps (snd (afterLoop J coins resp err w)) = sleeps w"
  by (auto simp: afterLoop_def logOperation_def WriteFile_def Let_def
           split: option.splits sum.splits prod.splits)

lemma fetch_requests: "requests w < requests (snd (fetch J pg pp err coins w))"
proof -
  obtain resp err' w1 where r: "retryLoop (requestURL pg pp) 0 Second None err w = ((resp, err'), w1)"
    by (metis prod.exhaust)
  have "requests w < requests w1"
    using requests_retryLoop[of 0 w "requestURL pg pp" Second None err] r by simp
  then show ?thesis by (simp add: fetch_def r afterLoop_requests)
qed

subsection \<open>Five turns\<close>

lemma retryLoop_exhausted:
  assumes "\<forall>i<5. attemptFailed (http w url (requests w + i))"
  shows "retryLoop url 0 Second None err w =
         (lastOutcome (http w url (requests w + 4)),
          w\<lparr>now := now w + 31 * Second, requests := requests w + 5,
            sleeps := sleeps w @ [Second, 2 * Second, 4 * Second, 8 * Second, 16 * Second]\<rparr>)"
proof -
  have f: "attemptFailed (http w url (requests w))" "attemptFailed (http w url (Suc (requests w)))"
    "attemptFailed (http w url (Suc (Suc (requests w))))"
    "attemptFailed (http w url (Suc (Suc (Suc (requests w)))))"
    "attemptFailed (http w url (Suc (Suc (Suc (Suc (requests w))))))"
    using assms[rule_format, of 0] assms[rule_format, of 1] assms[rule_format, of 2]
      assms[rule_format, of 3] assms[rule_format, of 4]
    by (simp_all add: numeral_eq_Suc)
  have e4: "requests w + 4 = Suc (Suc (Suc (Suc (requests w))))" by simp
  show ?thesis
    apply (subst retryLoop_failed; simp add: f Sleep_def)
    apply (subst retryLoop_failed; simp add: f Sleep_def)
    apply (subst retryLoop_failed; simp add: f Sleep_def)
    apply (subst retryLoop_failed; simp add: f Sleep_def)
    apply (subst retryLoop_failed; simp add: f Sleep_def)
    apply (simp add: retryLoop_exit e4)
    done
qed

lemma retryLoop_fifth:
  assumes "\<forall>i<4. attemptFailed (http w url (requests w + i))"
    and "http w url (requests w + 4) = Inr r" "StatusCode r \<noteq> StatusTooManyRequests"
  shows "retryLoop url 0 Second None err w =
         ((Some r, None),
          w\<lparr>now := now w + 15 * Second, requests := requests w + 5,
            sleeps := sleeps w @ [Second, 2 * Second, 4 * Second, 8 * Second]\<rparr>)"
proof -
  have f: "attemptFailed (http w url (requests w))" "attemptFailed (http w url (Suc (requests w)))"
    "attemptFailed (http w url (Suc (Suc (requests w))))"
    "attemptFailed (http w url (Suc (Suc (Suc (requests w)))))"
    using assms(1)[rule_format, of 0] assms(1)[rule_format, of 1] assms(1)[rule_format, of 2]
      assms(1)[rule_format, of 3]
    by (simp_all add: numeral_eq_Suc)
  have "requests w + 4 = Suc (Suc (Suc (Suc (requests w))))" by simp
  with assms(2) have e4: "http w url (Suc (Suc (Suc (Suc (requests w))))) = Inr r" by simp
  show ?thesis
    apply (subst retryLoop_failed; simp add: f Sleep_def)
    apply (subst retryLoop_failed; simp add: f Sleep_def)
    apply (subst retryLoop_failed; simp add: f Sleep_def)
    apply (subst retryLoop_failed; simp add: f Sleep_def)
    apply (subst retryLoop_success; simp add: e4 assms(3))
    done
qed

text \<open>
  When every one of the five attempts fails, what the call returns is decided by the
  fifth alone: its error if it has one, and otherwise the body of its response, which
  the call reads and decodes as it does after a success.
\<close>

lemma fetch_exhausted:
  assumes "\<forall>i<5. attemptFailed (http w (requestURL pg pp) (requests w + i))"
  shows "fetch J pg pp err coins w =
         afterLoop J coins
           (fst (lastOutcome (http w (requestURL pg pp) (requests w + 4))))
           (snd (lastOutcome (http w (requestURL pg pp) (requests w + 4))))
           (w\<lparr>now := now w + 31 * Second, requests := requests w + 5,
             sleeps := sleeps w @ [Second, 2 * Second, 4 * Second, 8 * Second, 16 * Second]\<rparr>)"
  by (simp add: fetch_def retryLoop_exhausted[OF assms] case_prod_beta)

lemma fetch_exhausted_error:
  assumes "\<forall>i<5. attemptFailed (http w (requestURL pg pp) (requests w + i))"
    and "http w (requestURL pg pp) (requests w + 4) = Inl e"
  shows "fst (fetch J pg pp err coins w) = Failed e"
  by (simp add: fetch_exhausted[OF assms(1)] assms(2) lastOutcome_def afterLoop_def)

text \<open>
  C1. Exhausting the five attempts returns the error of the last attempt. The code
  returns it only when the last attempt has an error (\<open>fetch_exhausted_error\<close>). Here
  all five attempts are answered with status 429, with no cache file: the call makes its
  five requests, sleeps after each, and then takes the fifth response for a success.
  With the body \<^verbatim>\<open>[]\<close> it returns no error at all and writes the body to the cache; with
  a body that is no list of records it returns the error of the decoder.
\<close>

theorem GetRecords_fifth_429_taken_for_success:
  "GetRecords cannedJSON 1 50 (coldWorld\<lparr>http := \<lambda>url i. tooManyRequests ''[]''\<rparr>) =
     (Ok [],
      coldWorld\<lparr>http := \<lambda>url i. tooManyRequests ''[]'',
        now := 31 * Second, requests := 5,
        sleeps := [Second, 2 * Second, 4 * Second, 8 * Second, 16 * Second],
        cacheFile := Inr \<lparr>ModTime = 31 * Second, contents = Inr ''[]''\<rparr>,
        logged := [LogResult ''JSON Response'' (Some ''[]''),
                   LogResult ''Fetch Records'' (Some ''Fetched 0 records'')]\<rparr>)
   \<and> fst (GetRecords cannedJSON 1 50
            (coldWorld\<lparr>http := \<lambda>url i. tooManyRequests ''{status:{error_code:429}}''\<rparr>))
     = Failed (Error ''json: cannot unmarshal'')"
proof -
  let ?w = "\<lambda>b. coldWorld\<lparr>http := \<lambda>url i. tooManyRequests b\<rparr>"
  have miss: "checkCache cannedJSON (?w b) =
              (Inr (Some (Error ''stat crypto_cache.json: no such file or directory''), []), ?w b)" for b
    by (simp add: checkCache_def coldWorld_def)
  have failed: "\<forall>i<5. attemptFailed (http (?w b) u (requests (?w b) + i))" for b u
    by (simp add: attemptFailed_def tooManyRequests_def StatusTooManyRequests_def)
  have run: "GetRecords cannedJSON 1 50 (?w b) =
             afterLoop cannedJSON [] (Some \<lparr>StatusCode = 429, Body = Inr b\<rparr>) None
               ((?w b)\<lparr>now := 31 * Second, requests := 5,
                  sleeps := [Second, 2 * Second, 4 * Second, 8 * Second, 16 * Second]\<rparr>)" for b
  proof -
    have "GetRecords cannedJSON 1 50 (?w b) =
          fetch cannedJSON 1 50 (Some (Error ''stat crypto_cache.json: no such file or directory'')) [] (?w b)"
      by (simp add: GetRecords_def miss)
    also have "\<dots> = afterLoop cannedJSON [] (Some \<lparr>StatusCode = 429, Body = Inr b\<rparr>) None
               ((?w b)\<lparr>now := 31 * Second, requests := 5,
                  sleeps := [Second, 2 * Second, 4 * Second, 8 * Second, 16 * Second]\<rparr>)"
      by (subst fetch_exhausted[OF failed]) (simp add: lastOutcome_def tooManyRequests_def coldWorld_def)
    finally show ?thesis .
  qed
  have empty: "afterLoop cannedJSON [] (Some \<lparr>StatusCode = 429, Body = Inr ''[]''\<rparr>) None w =
               (Ok [], (w\<lparr>cacheFile := Inr \<lparr>ModTime = now w, contents = Inr ''[]''\<rparr>,
                           logged := logged w @ [LogResult ''JSON Response'' (Some ''[]''),
                             LogResult ''Fetch Records'' (Some ''Fetched 0 records'')]\<rparr>))"
    if "writeFault w = None" for w
    using that
    by (simp add: afterLoop_def cannedJSON_def twoCoins_def twoCoinsJSON_def logOperation_def
        WriteFile_def Itoa_0)
  have other: "fst (afterLoop cannedJSON [] (Some \<lparr>StatusCode = 429, Body = Inr ''{status:{error_code:429}}''\<rparr>) None w)
               = Failed (Error ''json: cannot unmarshal'')" for w
    by (simp add: afterLoop_def cannedJSON_def twoCoinsJSON_def)
  show ?thesis
    unfolding run by (simp add: empty other coldWorld_def)
qed

subsection \<open>The cache check\<close>

lemma checkCache_hit:
  "cacheFile w = Inr f \<Longrightarrow> now w - ModTime f < 30 * Second \<Longrightarrow> contents f = Inr data \<Longrightarrow>
   Unmarshal J data [] = (None, coins) \<Longrightarrow>
   checkCache J w = (Inl coins, logOperation ''Cache Hit''
       (Some (''Fetched '' @ Itoa (int (length coins)) @ '' records from cache'')) None w)"
  by (simp add: checkCache_def)

lemma GetRecords_cache_hit:
  "cacheFile w = Inr f \<Longrightarrow> now w - ModTime f < 30 * Second \<Longrightarrow> contents f = Inr data \<Longrightarrow>
   Unmarshal J data [] = (None, coins) \<Longrightarrow>
   fst (GetRecords J pg pp w) = Ok coins \<and> requests (snd (GetRecords J pg pp w)) = requests w"
  by (simp add: GetRecords_def checkCache_hit logOperation_def)

lemma checkCache_miss_world: "fst (checkCache J w) = Inr x \<Longrightarrow> snd (checkCache J w) = w"
  by (auto simp: checkCache_def split: sum.splits option.splits prod.splits if_splits)

text \<open>
  The request does not look at the error the cache check left in \<^verbatim>\<open>err\<close>: the first turn
  of the loop assigns \<^verbatim>\<open>resp\<close> and \<^verbatim>\<open>err\<close> before anything reads them (line 100).
\<close>

lemma retryLoop_entry:
  "retries < 5 \<Longrightarrow>
   retryLoop url retries delay resp err w = retryLoop url retries delay resp' err' w"
  by (subst retryLoop.simps, subst (2) retryLoop.simps) simp

lemma fetch_entry: "fetch J pg pp err coins w = fetch J pg pp None coins w"
  by (simp add: fetch_def retryLoop_entry[of 0 _ _ None err _ None None])

lemma retryLoop_outcome:
  "retries < 5 \<Longrightarrow>
   \<exists>i. requests w \<le> i \<and> i < requests w + nat (5 - retries)
       \<and> fst (retryLoop url retries delay resp err w) = lastOutcome (http w url i)"
proof (induction "nat (5 - retries)" arbitrary: retries delay resp err w)
  case 0
  then show ?case by simp
next
  case (Suc n)
  let ?x = "http w url (requests w)"
  let ?w1 = "Sleep delay (w\<lparr>requests := Suc (requests w)\<rparr>)"
  have n: "nat (5 - retries) = Suc n" using Suc.hyps(2) by simp
  have here: "requests w \<le> requests w \<and> requests w < requests w + nat (5 - retries)"
    using n by simp
  have later: "\<exists>i. requests w \<le> i \<and> i < requests w + nat (5 - retries)
       \<and> fst (retryLoop url (retries + 1) (delay * 2) (fst (lastOutcome ?x)) (snd (lastOutcome ?x)) ?w1)
           = lastOutcome (http w url i)"
  proof (cases "retries + 1 < 5")
    case False
    then have "fst (retryLoop url (retries + 1) (delay * 2) (fst (lastOutcome ?x)) (snd (lastOutcome ?x)) ?w1)
               = lastOutcome ?x"
      by (simp add: retryLoop_exit)
    with here show ?thesis by blast
  next
    case True
    have "n = nat (5 - (retries + 1))" using Suc.hyps(2) by simp
    from Suc.hyps(1)[OF this True, of ?w1 "delay * 2" "fst (lastOutcome ?x)" "snd (lastOutcome ?x)"]
    obtain i where i: "requests ?w1 \<le> i" "i < requests ?w1 + nat (5 - (retries + 1))"
      "fst (retryLoop url (retries + 1) (delay * 2) (fst (lastOutcome ?x)) (snd (lastOutcome ?x)) ?w1)
         = lastOutcome (http ?w1 url i)"
      by blast
    have "requests w \<le> i" using i(1) by (simp add: Sleep_def)
    moreover have "i < requests w + nat (5 - retries)"
      using i(2) n by (simp add: Sleep_def)
    moreover have "http ?w1 url i = http w url i" by (simp add: Sleep_def)
    ultimately show ?thesis using i(3) by auto
  qed
  show ?case
  proof (cases "attemptFailed ?x")
    case True
    then show ?thesis
      using later Suc.prems by (simp add: retryLoop_failed)
  next
    case False
    then obtain r where r: "?x = Inr r" "StatusCode r \<noteq> StatusTooManyRequests"
      by (cases ?x) (auto simp: attemptFailed_def)
    then have "fst (retryLoop url retries delay resp err w) = lastOutcome ?x"
      using Suc.prems by (simp add: retryLoop_success lastOutcome_def)
    with here show ?thesis by blast
  qed
qed

lemma afterLoop_failed:
  "fst (afterLoop J coins (fst (lastOutcome x)) (snd (lastOutcome x)) w) = Failed e \<Longrightarrow>
   x = Inl e
   \<or> (\<exists>r. x = Inr r \<and> Body r = Inl e)
   \<or> (\<exists>r body coins'. x = Inr r \<and> Body r = Inr body \<and> Unmarshal J body coins = (Some e, coins'))"
  by (cases x)
     (auto simp: afterLoop_def lastOutcome_def Let_def split: sum.splits prod.splits option.splits)

lemma afterLoop_never_panics:
  "fst (afterLoop J coins (fst (lastOutcome x)) (snd (lastOutcome x)) w) \<noteq> Panicked p"
  by (cases x)
     (auto simp: afterLoop_def lastOutcome_def Let_def split: sum.splits prod.splits option.splits)

lemma fetch_outcome:
  "\<exists>i w1. requests w \<le> i \<and> i < requests w + 5
     \<and> fetch J pg pp err coins w
         = afterLoop J coins (fst (lastOutcome (http w (requestURL pg pp) i)))
             (snd (lastOutcome (http w (requestURL pg pp) i))) w1"
proof -
  obtain i where i: "requests w \<le> i" "i < requests w + nat (5 - 0)"
    "fst (retryLoop (requestURL pg pp) 0 Second None err w) = lastOutcome (http w (requestURL pg pp) i)"
    using retryLoop_outcome[of 0 w "requestURL pg pp" Second None err] by auto
  have "fetch J pg pp err coins w
         = afterLoop J coins (fst (lastOutcome (http w (requestURL pg pp) i)))
             (snd (lastOutcome (http w (requestURL pg pp) i)))
             (snd (retryLoop (requestURL pg pp) 0 Second None err w))"
    using i(3) by (simp add: fetch_def case_prod_beta)
  with i(1,2) show ?thesis by auto
qed

text \<open>
  C2. A snapshot younger than 30 seconds whose contents decode is returned, and no
  request is made: the count of requests is the one the call started with. When
  \<^verbatim>\<open>os.Stat\<close> fails, when the snapshot is 30 seconds old or older or when it cannot be
  read, the call is the request of lines 95 to 132 as it runs with no error pending and
  no records decoded; when the snapshot does not decode, it is that request with no error
  pending and \<^verbatim>\<open>coins\<close> as the decoder left it. That request asks the server at least once
  and does not panic; an error it returns is the error of one of its at most five
  attempts, of reading that attempt's body or of decoding that body, so never the error
  of the cache check; and when its first attempt is answered with a status other than
  429, its result is the code after the loop applied to that answer, with \<^verbatim>\<open>err\<close> nil.
\<close>

theorem cache_short_circuits_or_falls_through:
  "(cacheFile w = Inr f \<and> now w - ModTime f < 30 * Second \<and> contents f = Inr data \<and>
    Unmarshal J data [] = (None, coins)
      \<longrightarrow> fst (GetRecords J pg pp w) = Ok coins
          \<and> requests (snd (GetRecords J pg pp w)) = requests w)
   \<and> ((\<exists>e. cacheFile w = Inl e)
       \<or> (\<exists>f. cacheFile w = Inr f
              \<and> (30 * Second \<le> now w - ModTime f \<or> (\<exists>e. contents f = Inl e)))
      \<longrightarrow> GetRecords J pg pp w = fetch J pg pp None [] w)
   \<and> (cacheFile w = Inr f' \<and> now w - ModTime f' < 30 * Second \<and> contents f' = Inr data' \<and>
       Unmarshal J data' [] = (Some e, coins')
      \<longrightarrow> GetRecords J pg pp w = fetch J pg pp None coins' w)
   \<and> requests w < requests (snd (fetch J pg pp None cs w))
   \<and> fst (fetch J pg pp None cs w) \<noteq> Panicked p
   \<and> (fst (fetch J pg pp None cs w) = Failed e'
      \<longrightarrow> (\<exists>i. requests w \<le> i \<and> i < requests w + 5
             \<and> (http w (requestURL pg pp) i = Inl e'
                 \<or> (\<exists>r. http w (requestURL pg pp) i = Inr r
                        \<and> (Body r = Inl e'
                            \<or> (\<exists>body cs'. Body r = Inr body
                                  \<and> Unmarshal J body cs = (Some e', cs')))))))
   \<and> (http w (requestURL pg pp) (requests w) = Inr r \<and> StatusCode r \<noteq> StatusTooManyRequests
      \<longrightarrow> fetch J pg pp None cs w
          = afterLoop J cs (Some r) None (w\<lparr>requests := Suc (requests w)\<rparr>))"
proof -
  have hit: "cacheFile w = Inr f \<and> now w - ModTime f < 30 * Second \<and> contents f = Inr data \<and>
    Unmarshal J data [] = (None, coins)
      \<longrightarrow> fst (GetRecords J pg pp w) = Ok coins
          \<and> requests (snd (GetRecords J pg pp w)) = requests w"
    using GetRecords_cache_hit[of w f data J coins pg pp] by blast
  have miss: "(\<exists>e. cacheFile w = Inl e)
       \<or> (\<exists>f. cacheFile w = Inr f
              \<and> (30 * Second \<le> now w - ModTime f \<or> (\<exists>e. contents f = Inl e)))
      \<longrightarrow> GetRecords J pg pp w = fetch J pg pp None [] w"
  proof
    assume "(\<exists>e. cacheFile w = Inl e)
       \<or> (\<exists>f. cacheFile w = Inr f
              \<and> (30 * Second \<le> now w - ModTime f \<or> (\<exists>e. contents f = Inl e)))"
    then have "\<exists>err. checkCache J w = (Inr (err, []), w)"
      by (auto simp: checkCache_def split: sum.splits)
    then obtain err where "checkCache J w = (Inr (err, []), w)" by blast
    then have "GetRecords J pg pp w = fetch J pg pp err [] w" by (simp add: GetRecords_def)
    then show "GetRecords J pg pp w = fetch J pg pp None [] w" by (simp add: fetch_entry[of _ _ _ err])
  qed
  have undecodable: "cacheFile w = Inr f' \<and> now w - ModTime f' < 30 * Second \<and> contents f' = Inr data' \<and>
       Unmarshal J data' [] = (Some e, coins')
      \<longrightarrow> GetRecords J pg pp w = fetch J pg pp None coins' w"
    by (simp add: GetRecords_def checkCache_def)
  have asked: "requests w < requests (snd (fetch J pg pp None cs w))"
    by (rule fetch_requests)
  obtain i w1 where i: "requests w \<le> i" "i < requests w + 5"
    and f: "fetch J pg pp None cs w
         = afterLoop J cs (fst (lastOutcome (http w (requestURL pg pp) i)))
             (snd (lastOutcome (http w (requestURL pg pp) i))) w1"
    using fetch_outcome[of w J pg pp None cs] by blast
  have sound: "fst (fetch J pg pp None cs w) \<noteq> Panicked p"
    unfolding f by (rule afterLoop_never_panics)
  have origin: "fst (fetch J pg pp None cs w) = Failed e'
      \<longrightarrow> (\<exists>i. requests w \<le> i \<and> i < requests w + 5
             \<and> (http w (requestURL pg pp) i = Inl e'
                 \<or> (\<exists>r. http w (requestURL pg pp) i = Inr r
                        \<and> (Body r = Inl e'
                            \<or> (\<exists>body cs'. Body r = Inr body
                                  \<and> Unmarshal J body cs = (Some e', cs'))))))"
  proof
    assume "fst (fetch J pg pp None cs w) = Failed e'"
    then have "fst (afterLoop J cs (fst (lastOutcome (http w (requestURL pg pp) i)))
             (snd (lastOutcome (http w (requestURL pg pp) i))) w1) = Failed e'"
      by (simp add: f)
    from afterLoop_failed[OF this] i
    show "\<exists>i. requests w \<le> i \<and> i < requests w + 5
             \<and> (http w (requestURL pg pp) i = Inl e'
                 \<or> (\<exists>r. http w (requestURL pg pp) i = Inr r
                        \<and> (Body r = Inl e'
                            \<or> (\<exists>body cs'. Body r = Inr body
                                  \<and> Unmarshal J body cs = (Some e', cs')))))"
      by blast
  qed
  have first: "http w (requestURL pg pp) (requests w) = Inr r \<and> StatusCode r \<noteq> StatusTooManyRequests
      \<longrightarrow> fetch J pg pp None cs w
          = afterLoop J cs (Some r) None (w\<lparr>requests := Suc (requests w)\<rparr>)"
    by (simp add: fetch_def retryLoop_success)
  show ?thesis
    by (intro conjI hit miss undecodable asked sound origin first)
qed

text \<open>
  Each case at work, the server answering with two coins: a snapshot \<^verbatim>\<open>[]\<close> written 10
  seconds ago is returned with no request made; the same snapshot 40 seconds old, a
  fresh snapshot that does not decode, a fresh snapshot that cannot be read and a missing
  snapshot all end with the two coins of the server, and with no error.
\<close>

theorem cache_short_circuits_or_falls_through_witness:
  "fst (GetRecords cannedJSON 1 50
          (coldWorld\<lparr>now := 10 * Second,
             cacheFile := Inr \<lparr>ModTime = 0, contents = Inr ''[]''\<rparr>\<rparr>)) = Ok []
   \<and> requests (snd (GetRecords cannedJSON 1 50
          (coldWorld\<lparr>now := 10 * Second,
             cacheFile := Inr \<lparr>ModTime = 0, contents = Inr ''[]''\<rparr>\<rparr>))) = 0
   \<and> fst (GetRecords cannedJSON 1 50
          (coldWorld\<lparr>now := 40 * Second,
             cacheFile := Inr \<lparr>ModTime = 0, contents = Inr ''[]''\<rparr>\<rparr>)) = Ok twoCoins
   \<and> requests (snd (GetRecords cannedJSON 1 50
          (coldWorld\<lparr>now := 40 * Second,
             cacheFile := Inr \<lparr>ModTime = 0, contents = Inr ''[]''\<rparr>\<rparr>))) = 1
   \<and> fst (GetRecords cannedJSON 1 50
          (coldWorld\<lparr>now := 10 * Second,
             cacheFile := Inr \<lparr>ModTime = 0, contents = Inr ''[{''\<rparr>\<rparr>)) = Ok twoCoins
   \<and> fst (GetRecords cannedJSON 1 50
          (coldWorld\<lparr>now := 10 * Second,
             cacheFile := Inr \<lparr>ModTime = 0,
                                contents = Inl (Error ''permission denied'')\<rparr>\<rparr>)) = Ok twoCoins
   \<and> fst (GetRecords cannedJSON 1 50 coldWorld) = Ok twoCoins"
proof -
  let ?r = "\<lparr>StatusCode = 200, Body = Inr twoCoinsJSON\<rparr>"
  let ?fresh = "coldWorld\<lparr>now := 10 * Second,
             cacheFile := Inr \<lparr>ModTime = 0, contents = Inr ''[]''\<rparr>\<rparr>"
  let ?old = "coldWorld\<lparr>now := 40 * Second,
             cacheFile := Inr \<lparr>ModTime = 0, contents = Inr ''[]''\<rparr>\<rparr>"
  let ?broken = "coldWorld\<lparr>now := 10 * Second,
             cacheFile := Inr \<lparr>ModTime = 0, contents = Inr ''[{''\<rparr>\<rparr>"
  let ?locked = "coldWorld\<lparr>now := 10 * Second,
             cacheFile := Inr \<lparr>ModTime = 0, contents = Inl (Error ''permission denied'')\<rparr>\<rparr>"
  have served: "fst (afterLoop cannedJSON [] (Some ?r) None w) = Ok twoCoins"
    "requests (snd (afterLoop cannedJSON [] (Some ?r) None w)) = requests w" for w
    by (simp_all add: afterLoop_requests)
       (simp add: afterLoop_def cannedJSON_def Let_def split: sum.splits prod.splits)
  have hit: "fst (GetRecords cannedJSON 1 50 W) = Ok C
             \<and> requests (snd (GetRecords cannedJSON 1 50 W)) = requests W"
    if "cacheFile W = Inr F \<and> now W - ModTime F < 30 * Second \<and> contents F = Inr D
        \<and> Unmarshal cannedJSON D [] = (None, C)" for W F D C
    using cache_short_circuits_or_falls_through
            [where w = W and J = cannedJSON and pg = 1 and pp = 50 and f = F and data = D
               and coins = C, THEN conjunct1] that
    by blast
  have falls: "GetRecords cannedJSON 1 50 W = fetch cannedJSON 1 50 None [] W"
    if "(\<exists>e. cacheFile W = Inl e)
        \<or> (\<exists>f. cacheFile W = Inr f
              \<and> (30 * Second \<le> now W - ModTime f \<or> (\<exists>e. contents f = Inl e)))" for W
    using cache_short_circuits_or_falls_through
            [where w = W and J = cannedJSON and pg = 1 and pp = 50,
             THEN conjunct2, THEN conjunct1] that
    by blast
  have falls': "GetRecords cannedJSON 1 50 W = fetch cannedJSON 1 50 None C W"
    if "cacheFile W = Inr F \<and> now W - ModTime F < 30 * Second \<and> contents F = Inr D
        \<and> Unmarshal cannedJSON D [] = (Some E, C)" for W F D E C
    using cache_short_circuits_or_falls_through
            [where w = W and J = cannedJSON and pg = 1 and pp = 50 and f' = F and data' = D
               and e = E and coins' = C, THEN conjunct2, THEN conjunct2, THEN conjunct1] that
    by blast
  have answered: "fetch cannedJSON 1 50 None C W
                  = afterLoop cannedJSON C (Some ?r) None (W\<lparr>requests := Suc (requests W)\<rparr>)"
    if "http W (requestURL 1 50) (requests W) = Inr ?r" for W C
    using cache_short_circuits_or_falls_through
            [where w = W and J = cannedJSON and pg = 1 and pp = 50 and cs = C and r = ?r,
             THEN conjunct2, THEN conjunct2, THEN conjunct2, THEN conjunct2, THEN conjunct2,
             THEN conjunct2] that
    by (simp add: StatusTooManyRequests_def)
  have h: "http ?fresh (requestURL 1 50) (requests ?fresh) = Inr ?r"
    "http ?old (requestURL 1 50) (requests ?old) = Inr ?r"
    "http ?broken (requestURL 1 50) (requests ?broken) = Inr ?r"
    "http ?locked (requestURL 1 50) (requests ?locked) = Inr ?r"
    "http coldWorld (requestURL 1 50) (requests coldWorld) = Inr ?r"
    by (simp_all add: coldWorld_def)
  have 1: "fst (GetRecords cannedJSON 1 50 ?fresh) = Ok []
           \<and> requests (snd (GetRecords cannedJSON 1 50 ?fresh)) = 0"
    using hit[of ?fresh "\<lparr>ModTime = 0, contents = Inr ''[]''\<rparr>" "''[]''" "[]"]
    by (simp add: coldWorld_def cannedJSON_def Second_def twoCoinsJSON_def)
  have "GetRecords cannedJSON 1 50 ?old = fetch cannedJSON 1 50 None [] ?old"
    by (rule falls) (simp add: coldWorld_def Second_def)
  then have 2: "fst (GetRecords cannedJSON 1 50 ?old) = Ok twoCoins
           \<and> requests (snd (GetRecords cannedJSON 1 50 ?old)) = 1"
    by (simp add: answered[OF h(2)] served) (simp add: coldWorld_def)
  have "GetRecords cannedJSON 1 50 ?broken = fetch cannedJSON 1 50 None [] ?broken"
    by (rule falls'[of _ "\<lparr>ModTime = 0, contents = Inr ''[{''\<rparr>" "''[{''"
                       "Error ''json: cannot unmarshal''"])
       (simp add: coldWorld_def cannedJSON_def Second_def twoCoinsJSON_def)
  then have 3: "fst (GetRecords cannedJSON 1 50 ?broken) = Ok twoCoins"
    by (simp add: answered[OF h(3)] served)
  have "GetRecords cannedJSON 1 50 ?locked = fetch cannedJSON 1 50 None [] ?locked"
    by (rule falls) (simp add: coldWorld_def Second_def)
  then have 4: "fst (GetRecords cannedJSON 1 50 ?locked) = Ok twoCoins"
    by (simp add: answered[OF h(4)] served)
  have "GetRecords cannedJSON 1 50 coldWorld = fetch cannedJSON 1 50 None [] coldWorld"
    by (rule falls) (simp add: coldWorld_def)
  then have 5: "fst (GetRecords cannedJSON 1 50 coldWorld) = Ok twoCoins"
    by (simp add: answered[OF h(5)] served)
  from 1 2 3 4 5 show ?thesis by simp
qed

subsection \<open>Four refusals, then an answer\<close>

text \<open>
  C3. The cache misses, the first four calls of \<^verbatim>\<open>client.Get\<close> are answered with status
  429 and the fifth with another status and no error. Then the call has made exactly five
  requests, has slept four times, for 1, 2, 4 and 8 seconds (15 seconds in all, none
  after the fifth attempt), and goes on with the fifth response: it is what lines 107 to
  132 make of that response.
\<close>

theorem four_429_then_success:
  "fst (checkCache J w) = Inr (err, coins) \<longrightarrow>
   (\<forall>i<4. \<exists>r'. http w (requestURL pg pp) (requests w + i) = Inr r'
                \<and> StatusCode r' = StatusTooManyRequests) \<longrightarrow>
   http w (requestURL pg pp) (requests w + 4) = Inr r \<longrightarrow>
   StatusCode r \<noteq> StatusTooManyRequests \<longrightarrow>
     requests (snd (GetRecords J pg pp w)) = requests w + 5
   \<and> sleeps (snd (GetRecords J pg pp w))
       = sleeps w @ [Second, 2 * Second, 4 * Second, 8 * Second]
   \<and> sum_list [Second, 2 * Second, 4 * Second, 8 * Second] = 15 * Second
   \<and> GetRecords J pg pp w =
       afterLoop J coins (Some r) None
         (w\<lparr>now := now w + 15 * Second, requests := requests w + 5,
            sleeps := sleeps w @ [Second, 2 * Second, 4 * Second, 8 * Second]\<rparr>)"
proof (intro impI)
  assume miss: "fst (checkCache J w) = Inr (err, coins)"
    and four: "\<forall>i<4. \<exists>r'. http w (requestURL pg pp) (requests w + i) = Inr r'
                \<and> StatusCode r' = StatusTooManyRequests"
    and fifth: "http w (requestURL pg pp) (requests w + 4) = Inr r"
    and ok: "StatusCode r \<noteq> StatusTooManyRequests"
  let ?w' = "w\<lparr>now := now w + 15 * Second, requests := requests w + 5,
            sleeps := sleeps w @ [Second, 2 * Second, 4 * Second, 8 * Second]\<rparr>"
  have cc: "checkCache J w = (Inr (err, coins), w)"
    using miss checkCache_miss_world[OF miss] by (simp add: prod_eq_iff)
  have failed: "\<forall>i<4. attemptFailed (http w (requestURL pg pp) (requests w + i))"
    using four by (auto simp: attemptFailed_def)
  have loop: "retryLoop (requestURL pg pp) 0 Second None err w = ((Some r, None), ?w')"
    by (rule retryLoop_fifth[OF failed fifth ok])
  have run: "GetRecords J pg pp w = afterLoop J coins (Some r) None ?w'"
    by (simp add: GetRecords_def cc fetch_def loop)
  show "requests (snd (GetRecords J pg pp w)) = requests w + 5
   \<and> sleeps (snd (GetRecords J pg pp w))
       = sleeps w @ [Second, 2 * Second, 4 * Second, 8 * Second]
   \<and> sum_list [Second, 2 * Second, 4 * Second, 8 * Second] = 15 * Second
   \<and> GetRecords J pg pp w = afterLoop J coins (Some r) None ?w'"
    by (simp add: run afterLoop_requests afterLoop_sleeps)
qed

text \<open>
  Such a run: no cache file, four answers with status 429, then the two coins with
  status 200. The call returns the two coins after five requests and 15 seconds of sleep.
\<close>

theorem four_429_then_success_witness:
  "fst (GetRecords cannedJSON 1 50
          (coldWorld\<lparr>http := \<lambda>url i. if i < 4 then tooManyRequests []
                                    else Inr \<lparr>StatusCode = 200, Body = Inr twoCoinsJSON\<rparr>\<rparr>))
     = Ok twoCoins
   \<and> requests (snd (GetRecords cannedJSON 1 50
          (coldWorld\<lparr>http := \<lambda>url i. if i < 4 then tooManyRequests []
                                    else Inr \<lparr>StatusCode = 200, Body = Inr twoCoinsJSON\<rparr>\<rparr>))) = 5
   \<and> sleeps (snd (GetRecords cannedJSON 1 50
          (coldWorld\<lparr>http := \<lambda>url i. if i < 4 then tooManyRequests []
                                    else Inr \<lparr>StatusCode = 200, Body = Inr twoCoinsJSON\<rparr>\<rparr>)))
     = [Second, 2 * Second, 4 * Second, 8 * Second]"
  using four_429_then_success
          [of cannedJSON
              "coldWorld\<lparr>http := \<lambda>url i. if i < 4 then tooManyRequests []
                                    else Inr \<lparr>StatusCode = 200, Body = Inr twoCoinsJSON\<rparr>\<rparr>"
              "Some (Error ''stat crypto_cache.json: no such file or directory'')" "[]" 1 50
              "\<lparr>StatusCode = 200, Body = Inr twoCoinsJSON\<rparr>"]
  by (simp add: checkCache_def coldWorld_def tooManyRequests_def StatusTooManyRequests_def
        afterLoop_def cannedJSON_def logOperation_def WriteFile_def)

subsection \<open>Writing the snapshot\<close>





text \<open>The codec of the runs below takes back what it has decoded.\<close>

lemma cannedJSON_roundTrips: "roundTrips cannedJSON"
  by (auto simp: roundTrips_def cannedJSON_def twoCoinsJSON_def split: if_splits)









section \<open>The view state: sorting\<close>

subsection \<open>The insertion sort\<close>

lemma insertLeft_mset:
  "insertLeft lessf x ys = Inr zs \<Longrightarrow> mset zs = add_mset x (mset ys)"
  by (induction ys arbitrary: zs) (auto split: sum.splits if_splits)

lemma insertionLoop_mset:
  "insertionLoop lessf acc xs = Inr ys \<Longrightarrow> mset ys = mset acc + mset xs"
proof (induction xs arbitrary: acc)
  case Nil
  then show ?case by auto
next
  case (Cons x xs)
  then show ?case by (auto split: sum.splits dest!: insertLeft_mset)
qed

lemma insertionSort_mset: "insertionSort lessf xs = Inr ys \<Longrightarrow> mset ys = mset xs"
  by (auto simp: insertionSort_def dest: insertionLoop_mset)

lemma insertionSort_length: "insertionSort lessf xs = Inr ys \<Longrightarrow> length ys = length xs"
  by (metis insertionSort_mset size_mset)

lemma insertLeft_total:
  "\<forall>y\<in>set ys. \<exists>b. lessf x y = Inr b \<Longrightarrow> \<exists>zs. insertLeft lessf x ys = Inr zs"
  by (induction ys) (auto split: sum.splits)

lemma insertionLoop_total:
  "\<forall>a\<in>set acc \<union> set xs. \<forall>b\<in>set acc \<union> set xs. \<exists>v. lessf a b = Inr v \<Longrightarrow>
   \<exists>ys. insertionLoop lessf acc xs = Inr ys"
proof (induction xs arbitrary: acc)
  case Nil
  then show ?case by simp
next
  case (Cons x xs)
  have "\<forall>y\<in>set acc. \<exists>b. lessf x y = Inr b" using Cons.prems by auto
  then have "\<exists>zs. insertLeft lessf x acc = Inr zs" by (rule insertLeft_total)
  then obtain acc' where a: "insertLeft lessf x acc = Inr acc'" by blast
  then have "set acc' = insert x (set acc)"
    by (metis insertLeft_mset set_mset_add_mset_insert set_mset_mset)
  then have "\<forall>a\<in>set acc' \<union> set xs. \<forall>b\<in>set acc' \<union> set xs. \<exists>v. lessf a b = Inr v"
    using Cons.prems by auto
  from Cons.IH[OF this] a show ?case by simp
qed

lemma insertionSort_total:
  "\<forall>a\<in>set xs. \<forall>b\<in>set xs. \<exists>v. lessf a b = Inr v \<Longrightarrow> \<exists>ys. insertionSort lessf xs = Inr ys"
  using insertionLoop_total[of "[]" xs lessf] by (simp add: insertionSort_def)

subsection \<open>What sorting and redrawing leave alone\<close>

lemma sortSlice_frame: "sortSlice L lessf m = Inr m' \<Longrightarrow> m' = m\<lparr>records := records m'\<rparr>"
  by (auto simp: sortSlice_def split: sum.splits)

lemma sortRecords_frame: "sortRecords L m = Inr m' \<Longrightarrow> m' = m\<lparr>records := records m'\<rparr>"
  by (auto simp: sortRecords_def split: if_splits dest: sortSlice_frame)

lemma updateTable_frame: "updateTable m = Inr m' \<Longrightarrow> m' = m\<lparr>table := table m'\<rparr>"
  by (auto simp: updateTable_def Let_def split: if_splits)

lemma Update_sort_key:
  assumes "k \<in> set sortKeys" "Update L m (KeyMsg k) = Inr (m', c)"
  shows "\<exists>rs t. m' = (toggleSort k m)\<lparr>records := rs, table := t\<rparr>
               \<and> sortRecords L (toggleSort k m) = Inr ((toggleSort k m)\<lparr>records := rs\<rparr>)"
proof -
  have k: "k \<noteq> ''esc''" "k \<noteq> ''q''" "k \<noteq> ''ctrl+c''" "k \<noteq> ''enter''" "k \<noteq> ''right''" "k \<noteq> ''left''"
    using assms(1) by (auto simp: sortKeys_def)
  obtain m1 where s: "sortRecords L (toggleSort k m) = Inr m1"
    using assms k by (auto simp: Update_def keySwitch_def split: sum.splits)
  obtain m2 where u: "updateTable m1 = Inr m2"
    using assms k s by (auto simp: Update_def keySwitch_def split: sum.splits)
  have m': "m' = m2\<lparr>table := fst (table_Update L (KeyMsg k) (table m2))\<rparr>"
    using assms k s u by (auto simp: Update_def keySwitch_def split: prod.splits)
  have 1: "m1 = (toggleSort k m)\<lparr>records := records m1\<rparr>" using s by (rule sortRecords_frame)
  have 2: "m2 = m1\<lparr>table := table m2\<rparr>" using u by (rule updateTable_frame)
  have "m' = (toggleSort k m)\<lparr>records := records m1,
               table := fst (table_Update L (KeyMsg k) (table m2))\<rparr>"
    by (subst m', subst 2, subst 1) simp
  moreover have "sortRecords L (toggleSort k m) = Inr ((toggleSort k m)\<lparr>records := records m1\<rparr>)"
    using s 1 by simp
  ultimately show ?thesis by blast
qed

lemma shortLib_sortPermutes: "sortPermutes shortLib"
  by (auto simp: sortPermutes_def shortLib_def dest: insertionSort_mset)

lemma shortLib_sortReturns: "sortReturns shortLib"
  unfolding sortReturns_def shortLib_def by (simp add: insertionSort_total)

subsection \<open>When the handler returns\<close>

lemma windowEnd_le: "windowEnd m \<le> int (length (records m))"
  by (simp add: windowEnd_def Let_def)

lemma updateTable_total:
  "0 \<le> windowStart m \<Longrightarrow> windowStart m \<le> windowEnd m \<Longrightarrow> \<exists>m'. updateTable m = Inr m'"
  using windowEnd_le[of m] by (simp add: updateTable_def Let_def)

lemma updateTable_panics:
  "\<not> (0 \<le> windowStart m \<and> windowStart m \<le> windowEnd m) \<Longrightarrow> updateTable m = Inl SliceBoundsOutOfRange"
  by (auto simp: updateTable_def Let_def)

lemma firstByte_total: "s \<noteq> [] \<Longrightarrow> \<exists>x. firstByte s = Inr x"
  by (cases s) (simp_all add: firstByte_def)

lemma less_n_total:
  "ToLower ul (Name a) \<noteq> [] \<Longrightarrow> ToLower ul (Name b) \<noteq> [] \<Longrightarrow> \<exists>v. less_n ul asc a b = Inr v"
  using firstByte_total[of "ToLower ul (Name a)"] firstByte_total[of "ToLower ul (Name b)"]
  by (auto simp: less_n_def)

lemma sortSlice_total:
  assumes "sortReturns L" "\<forall>a\<in>set (records m). \<forall>b\<in>set (records m). \<exists>v. lessf a b = Inr v"
  shows "\<exists>rs. sortSlice L lessf m = Inr (m\<lparr>records := rs\<rparr>)"
proof -
  obtain ys where "sort_Slice L lessf (records m) = Inr ys"
    using assms unfolding sortReturns_def by blast
  then have "sortSlice L lessf m = Inr (m\<lparr>records := ys\<rparr>)" by (simp add: sortSlice_def)
  then show ?thesis by blast
qed

lemma sortRecords_total:
  assumes "sortReturns L"
    and "sortBy m = ''n'' \<longrightarrow> (\<forall>r\<in>set (records m). ToLower (unicode_ToLower L) (Name r) \<noteq> [])"
  shows "\<exists>rs. sortRecords L m = Inr (m\<lparr>records := rs\<rparr>)"
proof -
  have n: "sortBy m = ''n'' \<Longrightarrow>
           \<exists>rs. sortSlice L (less_n (unicode_ToLower L) (sortAsc m)) m = Inr (m\<lparr>records := rs\<rparr>)"
    using assms by (intro sortSlice_total) (auto intro: less_n_total)
  have other: "\<exists>rs. sortSlice L lessf m = Inr (m\<lparr>records := rs\<rparr>)"
    if "\<And>a b. \<exists>v. lessf a b = Inr v" for lessf
    using assms(1) that by (intro sortSlice_total) auto
  have same: "\<exists>rs. (Inr m :: panic + model) = Inr (m\<lparr>records := rs\<rparr>)"
    by (rule exI[of _ "records m"]) simp
  show ?thesis
    unfolding sortRecords_def
    using n same
      other[of "less_r (sortAsc m)"] other[of "less_p (sortAsc m)"] other[of "less_1 (sortAsc m)"]
      other[of "less_2 (sortAsc m)"] other[of "less_7 (sortAsc m)"] other[of "less_m (sortAsc m)"]
      other[of "less_a (sortAsc m)"] other[of "less_t (sortAsc m)"]
    by (simp add: less_r_def less_p_def less_1_def less_2_def less_7_def less_m_def
          less_a_def less_t_def)
qed

lemma sortRecords_permutes:
  "sortPermutes L \<Longrightarrow> sortRecords L m = Inr m' \<Longrightarrow> mset (records m') = mset (records m)"
  by (auto simp: sortRecords_def sortSlice_def sortPermutes_def split: if_splits sum.splits)

lemma window_records_length:
  "length (records m') = length (records m) \<Longrightarrow> page m' = page m \<Longrightarrow> perPage m' = perPage m \<Longrightarrow>
   windowStart m' = windowStart m \<and> windowEnd m' = windowEnd m"
  by (simp add: windowStart_def windowEnd_def Let_def)

lemma Update_sort_key_total:
  assumes "k \<in> set sortKeys" "sortReturns L" "sortPermutes L"
    and "k = ''n'' \<longrightarrow> (\<forall>r\<in>set (records m). ToLower (unicode_ToLower L) (Name r) \<noteq> [])"
    and "0 \<le> windowStart m" "windowStart m \<le> windowEnd m"
  shows "\<exists>m' c. Update L m (KeyMsg k) = Inr (m', c)"
proof -
  have k: "k \<noteq> ''esc''" "k \<noteq> ''q''" "k \<noteq> ''ctrl+c''" "k \<noteq> ''enter''" "k \<noteq> ''right''" "k \<noteq> ''left''"
    using assms(1) by (auto simp: sortKeys_def)
  let ?m = "toggleSort k m"
  have t: "records ?m = records m" "page ?m = page m" "perPage ?m = perPage m" "sortBy ?m = k"
    by (simp_all add: toggleSort_def)
  have "sortBy ?m = ''n'' \<longrightarrow> (\<forall>r\<in>set (records ?m). ToLower (unicode_ToLower L) (Name r) \<noteq> [])"
    using assms(4) by (simp only: t)
  from sortRecords_total[OF assms(2) this]
  obtain rs where s: "sortRecords L ?m = Inr (?m\<lparr>records := rs\<rparr>)" by blast
  have "mset rs = mset (records m)"
    using sortRecords_permutes[OF assms(3) s] t by simp
  then have "length rs = length (records m)" by (metis size_mset)
  then have "windowStart (?m\<lparr>records := rs\<rparr>) = windowStart m
           \<and> windowEnd (?m\<lparr>records := rs\<rparr>) = windowEnd m"
    by (intro window_records_length) (simp_all add: t)
  then obtain m2 where u: "updateTable (?m\<lparr>records := rs\<rparr>) = Inr m2"
    using updateTable_total[of "?m\<lparr>records := rs\<rparr>"] assms(5,6) by auto
  show ?thesis
    using k assms(1) s u by (simp add: Update_def keySwitch_def split: prod.splits)
qed

subsection \<open>The direction flag\<close>

text \<open>
  C4. Whenever the handler returns from one of the nine sort keys \<open>k\<close>, the key is active;
  the direction is flipped if \<open>k\<close> was active before and is ascending if it was not. So a
  second press of the same key brings the direction back. The handler returns whenever
  the window of the page is within the records and, for the key \<^verbatim>\<open>n\<close>, no lowered name
  is empty.
\<close>

theorem toggle_sort_flips_or_resets:
  "(k \<in> set sortKeys \<and> Update L m (KeyMsg k) = Inr (m1, c1)
      \<longrightarrow> sortBy m1 = k
          \<and> (sortBy m = k \<longrightarrow> sortAsc m1 = (\<not> sortAsc m))
          \<and> (sortBy m \<noteq> k \<longrightarrow> sortAsc m1)
          \<and> (sortBy m = k \<and> Update L m1 (KeyMsg k) = Inr (m2, c2)
               \<longrightarrow> sortBy m2 = k \<and> sortAsc m2 = sortAsc m))
   \<and> (k \<in> set sortKeys \<and> sortReturns L \<and> sortPermutes L
       \<and> (k = ''n'' \<longrightarrow> (\<forall>r\<in>set (records m). ToLower (unicode_ToLower L) (Name r) \<noteq> []))
       \<and> 0 \<le> windowStart m \<and> windowStart m \<le> windowEnd m
      \<longrightarrow> (\<exists>m' c. Update L m (KeyMsg k) = Inr (m', c)))"
proof (intro conjI impI)
  assume h: "k \<in> set sortKeys \<and> Update L m (KeyMsg k) = Inr (m1, c1)"
  then obtain rs t where m1: "m1 = (toggleSort k m)\<lparr>records := rs, table := t\<rparr>"
    using Update_sort_key[of k L m m1 c1] by blast
  show "sortBy m1 = k" by (simp add: m1 toggleSort_def)
  show "sortAsc m1 = (\<not> sortAsc m)" if "sortBy m = k" using that by (simp add: m1 toggleSort_def)
  show "sortAsc m1" if "sortBy m \<noteq> k" using that by (simp add: m1 toggleSort_def)
  show "sortBy m2 = k" if "sortBy m = k \<and> Update L m1 (KeyMsg k) = Inr (m2, c2)"
    using Update_sort_key[of k L m1 m2 c2] h that by (auto simp: toggleSort_def)
  show "sortAsc m2 = sortAsc m" if "sortBy m = k \<and> Update L m1 (KeyMsg k) = Inr (m2, c2)"
    using Update_sort_key[of k L m1 m2 c2] h that by (auto simp: m1 toggleSort_def)
next
  assume "k \<in> set sortKeys \<and> sortReturns L \<and> sortPermutes L
       \<and> (k = ''n'' \<longrightarrow> (\<forall>r\<in>set (records m). ToLower (unicode_ToLower L) (Name r) \<noteq> []))
       \<and> 0 \<le> windowStart m \<and> windowStart m \<le> windowEnd m"
  then show "\<exists>m' c. Update L m (KeyMsg k) = Inr (m', c)"
    using Update_sort_key_total[of k L m] by blast
qed

text \<open>
  The program starts sorted by \<^verbatim>\<open>r\<close>, ascending. With two coins on the first page, one
  press of \<^verbatim>\<open>r\<close> turns the direction to descending and a second one turns it back; a press
  of \<^verbatim>\<open>p\<close> after the first makes \<^verbatim>\<open>p\<close> the key, ascending.
\<close>

theorem toggle_sort_flips_or_resets_witness:
  "\<exists>m1 c1 m2 c2 m3 c3.
     Update shortLib (initialModel emptyTable 0 twoCoins) (KeyMsg ''r'') = Inr (m1, c1)
     \<and> sortBy m1 = ''r'' \<and> \<not> sortAsc m1
     \<and> Update shortLib m1 (KeyMsg ''r'') = Inr (m2, c2) \<and> sortBy m2 = ''r'' \<and> sortAsc m2
     \<and> Update shortLib m1 (KeyMsg ''p'') = Inr (m3, c3) \<and> sortBy m3 = ''p'' \<and> sortAsc m3"
proof -
  let ?m0 = "initialModel emptyTable 0 twoCoins"
  have keys: "''r'' \<in> set sortKeys" "''p'' \<in> set sortKeys" by (simp_all add: sortKeys_def)
  have returns: "\<exists>m' c. Update shortLib M (KeyMsg K) = Inr (m', c)"
    if "K \<in> set sortKeys" "K \<noteq> ''n''" "0 \<le> windowStart M \<and> windowStart M \<le> windowEnd M" for M K
    using toggle_sort_flips_or_resets[of K shortLib M, THEN conjunct2] that
      shortLib_sortReturns shortLib_sortPermutes by blast
  have flags: "sortBy M1 = K \<and> (sortBy M = K \<longrightarrow> sortAsc M1 = (\<not> sortAsc M))
      \<and> (sortBy M \<noteq> K \<longrightarrow> sortAsc M1)
      \<and> (sortBy M = K \<and> Update shortLib M1 (KeyMsg K) = Inr (M2, C2)
           \<longrightarrow> sortBy M2 = K \<and> sortAsc M2 = sortAsc M)"
    if "K \<in> set sortKeys" "Update shortLib M (KeyMsg K) = Inr (M1, C1)" for M K M1 C1 M2 C2
    using toggle_sort_flips_or_resets[of K shortLib M M1 C1 M2 C2, THEN conjunct1] that by blast
  have w0: "0 \<le> windowStart ?m0 \<and> windowStart ?m0 \<le> windowEnd ?m0"
    by (simp add: windowStart_def windowEnd_def initialModel_def twoCoins_def)
  obtain m1 c1 where u1: "Update shortLib ?m0 (KeyMsg ''r'') = Inr (m1, c1)"
    using returns[OF keys(1) _ w0] by auto
  have s0: "sortBy ?m0 = ''r''" "sortAsc ?m0" by (simp_all add: initialModel_def)
  have f1: "sortBy m1 = ''r'' \<and> \<not> sortAsc m1"
    using flags[OF keys(1) u1] s0 by simp
  obtain rs t where m1: "m1 = (toggleSort ''r'' ?m0)\<lparr>records := rs, table := t\<rparr>"
    and s1: "sortRecords shortLib (toggleSort ''r'' ?m0) = Inr ((toggleSort ''r'' ?m0)\<lparr>records := rs\<rparr>)"
    using Update_sort_key[OF keys(1) u1] by blast
  have "mset rs = mset twoCoins"
    using sortRecords_permutes[OF shortLib_sortPermutes s1]
    by (simp add: toggleSort_def initialModel_def)
  then have "size (mset rs) = size (mset twoCoins)" by simp
  then have "length rs = 2" by (simp add: twoCoins_def)
  then have w1: "0 \<le> windowStart m1 \<and> windowStart m1 \<le> windowEnd m1"
    by (simp add: m1 windowStart_def windowEnd_def toggleSort_def initialModel_def)
  obtain m2 c2 where u2: "Update shortLib m1 (KeyMsg ''r'') = Inr (m2, c2)"
    using returns[OF keys(1) _ w1] by auto
  have f2: "sortBy m2 = ''r'' \<and> sortAsc m2"
    using flags[OF keys(1) u1, of m2 c2] u2 s0 by simp
  obtain m3 c3 where u3: "Update shortLib m1 (KeyMsg ''p'') = Inr (m3, c3)"
    using returns[OF keys(2) _ w1] by auto
  have f3: "sortBy m3 = ''p'' \<and> sortAsc m3"
    using flags[OF keys(2) u3] f1 by simp
  from u1 f1 u2 f2 u3 f3 show ?thesis by blast
qed

subsection \<open>Rank and market cap\<close>

lemma less_r_is_less_m: "less_r = less_m"
  by (intro ext) (simp add: less_r_def less_m_def)

text \<open>
  C6. The closure of the case \<^verbatim>\<open>r\<close> and the closure of the case \<^verbatim>\<open>m\<close> are one function
  of the direction and the two records, so whatever \<^verbatim>\<open>sort.Slice\<close> does with one it
  does with the other: sorting by either key gives the same records (or the same panic).
  On three records with market caps 5, 1, 3, where \<^verbatim>\<open>sort.Slice\<close> is the insertion sort,
  either key gives 1, 3, 5 ascending and 5, 3, 1 descending.
\<close>

theorem rank_and_market_cap_sort_alike:
  "less_r = less_m
   \<and> map_sum id records (sortRecords L (m\<lparr>sortBy := ''r''\<rparr>))
     = map_sum id records (sortRecords L (m\<lparr>sortBy := ''m''\<rparr>))
   \<and> (sort_Slice L = insertionSort \<and> map MarketCap (records m) = [5, 1, 3]
        \<and> (k = ''r'' \<or> k = ''m'')
      \<longrightarrow> map_sum id (\<lambda>m'. map MarketCap (records m'))
            (sortRecords L (m\<lparr>sortBy := k, sortAsc := True\<rparr>)) = Inr [1, 3, 5]
        \<and> map_sum id (\<lambda>m'. map MarketCap (records m'))
            (sortRecords L (m\<lparr>sortBy := k, sortAsc := False\<rparr>)) = Inr [5, 3, 1])"
proof (intro conjI impI)
  show "less_r = less_m" by (rule less_r_is_less_m)
  show "map_sum id records (sortRecords L (m\<lparr>sortBy := ''r''\<rparr>))
        = map_sum id records (sortRecords L (m\<lparr>sortBy := ''m''\<rparr>))"
    by (simp add: sortRecords_def sortSlice_def less_r_is_less_m split: sum.splits)
next
  assume h: "sort_Slice L = insertionSort \<and> map MarketCap (records m) = [5, 1, 3]
             \<and> (k = ''r'' \<or> k = ''m'')"
  then obtain a b c where rs: "records m = [a, b, c]"
    and v: "MarketCap a = 5" "MarketCap b = 1" "MarketCap c = 3"
    by (auto simp: map_eq_Cons_conv)
  show "map_sum id (\<lambda>m'. map MarketCap (records m'))
          (sortRecords L (m\<lparr>sortBy := k, sortAsc := True\<rparr>)) = Inr [1, 3, 5]"
    using h rs v
    by (auto simp: sortRecords_def sortSlice_def less_r_def less_m_def insertionSort_def)
  show "map_sum id (\<lambda>m'. map MarketCap (records m'))
          (sortRecords L (m\<lparr>sortBy := k, sortAsc := False\<rparr>)) = Inr [5, 3, 1]"
    using h rs v
    by (auto simp: sortRecords_def sortSlice_def less_r_def less_m_def insertionSort_def)
qed

theorem rank_and_market_cap_sort_alike_witness:
  "map_sum id (\<lambda>m'. map MarketCap (records m'))
     (sortRecords shortLib
        ((initialModel emptyTable 0 [coinOf ''Tether'' 5, coinOf ''Dogecoin'' 1, coinOf ''Solana'' 3])
           \<lparr>sortBy := ''m'', sortAsc := True\<rparr>)) = Inr [1, 3, 5]
   \<and> map_sum id (\<lambda>m'. map MarketCap (records m'))
     (sortRecords shortLib
        ((initialModel emptyTable 0 [coinOf ''Tether'' 5, coinOf ''Dogecoin'' 1, coinOf ''Solana'' 3])
           \<lparr>sortBy := ''m'', sortAsc := False\<rparr>)) = Inr [5, 3, 1]"
  using rank_and_market_cap_sort_alike
          [of shortLib
              "initialModel emptyTable 0 [coinOf ''Tether'' 5, coinOf ''Dogecoin'' 1, coinOf ''Solana'' 3]"
              "''m''"]
  by (simp add: shortLib_def initialModel_def coinOf_def)

section \<open>The view state: sorting by name\<close>

subsection \<open>The lowered name\<close>

lemma ToLower_Nil: "ToLower ul [] = []"
  by (simp add: ToLower_def)

lemma ToLower_nonempty:
  "\<forall>s. s \<noteq> [] \<longrightarrow> ul s \<noteq> [] \<Longrightarrow> s \<noteq> [] \<Longrightarrow> ToLower ul s \<noteq> []"
  by (simp add: ToLower_def)

lemma lowerByte_not_upper: "\<not> isUpper c \<Longrightarrow> lowerByte c = c"
  by (simp add: lowerByte_def)

lemma ToLower_ASCII_head:
  "list_all isASCII (c # s) \<Longrightarrow> \<exists>s'. ToLower ul (c # s) = lowerByte c # s'"
  by (auto simp: ToLower_def lowerByte_not_upper)

lemma less_n_first_bytes:
  "ToLower ul (Name a) = x # s \<Longrightarrow> ToLower ul (Name b) = y # t \<Longrightarrow>
   less_n ul asc a b = Inr (if asc then (of_char x :: nat) < of_char y
                            else (of_char x :: nat) > of_char y)"
  by (simp add: less_n_def firstByte_def)

text \<open>
  C5. The closure of the case \<^verbatim>\<open>n\<close> answers from the first byte of each lowered name and
  from the direction, and from nothing else: when the lowered names are \<open>x # s\<close> and
  \<open>y # t\<close> it is \<open>x < y\<close> ascending and \<open>x > y\<close> descending, whatever \<open>s\<close> and \<open>t\<close> are.
  For names of ASCII bytes the first byte of the lowered name is the lowered first byte
  of the name, so two such names are ordered by their first characters, and neither the
  characters after the first nor any other field of the records count.
\<close>

theorem name_order_is_first_byte_only:
  "(ToLower ul (Name a) = x # s \<and> ToLower ul (Name b) = y # t
      \<longrightarrow> less_n ul asc a b = Inr (if asc then (of_char x :: nat) < of_char y
                                    else (of_char x :: nat) > of_char y))
   \<and> (list_all isASCII (c # s') \<and> list_all isASCII (d # t')
      \<longrightarrow> less_n ul asc (a\<lparr>Name := c # s'\<rparr>) (b\<lparr>Name := d # t'\<rparr>)
          = Inr (if asc then (of_char (lowerByte c) :: nat) < of_char (lowerByte d)
                 else (of_char (lowerByte c) :: nat) > of_char (lowerByte d)))"
proof (intro conjI impI)
  assume "ToLower ul (Name a) = x # s \<and> ToLower ul (Name b) = y # t"
  then show "less_n ul asc a b = Inr (if asc then (of_char x :: nat) < of_char y
                                    else (of_char x :: nat) > of_char y)"
    by (simp add: less_n_first_bytes)
next
  assume h: "list_all isASCII (c # s') \<and> list_all isASCII (d # t')"
  obtain u where u: "ToLower ul (c # s') = lowerByte c # u"
    using ToLower_ASCII_head[of c s' ul] h by blast
  obtain v where v: "ToLower ul (d # t') = lowerByte d # v"
    using ToLower_ASCII_head[of d t' ul] h by blast
  show "less_n ul asc (a\<lparr>Name := c # s'\<rparr>) (b\<lparr>Name := d # t'\<rparr>)
          = Inr (if asc then (of_char (lowerByte c) :: nat) < of_char (lowerByte d)
                 else (of_char (lowerByte c) :: nat) > of_char (lowerByte d))"
    by (rule less_n_first_bytes[where s = u and t = v]) (simp_all add: u v)
qed

text \<open>
  Bitcoin comes before Ethereum and after avalanche, whatever the case of the first
  letter; Bitcoin and Binance are not told apart, in either order.
\<close>

theorem name_order_is_first_byte_only_witness:
  "less_n (\<lambda>s. s) True (coinOf ''Bitcoin'' 5) (coinOf ''Ethereum'' 3) = Inr True
   \<and> less_n (\<lambda>s. s) True (coinOf ''Bitcoin'' 5) (coinOf ''avalanche'' 3) = Inr False
   \<and> less_n (\<lambda>s. s) True (coinOf ''Bitcoin'' 5) (coinOf ''Binance'' 3) = Inr False
   \<and> less_n (\<lambda>s. s) True (coinOf ''Binance'' 5) (coinOf ''Bitcoin'' 3) = Inr False
   \<and> less_n (\<lambda>s. s) False (coinOf ''Bitcoin'' 5) (coinOf ''avalanche'' 3) = Inr True"
  using name_order_is_first_byte_only
          [of "\<lambda>s. s" "coinOf ''Bitcoin'' 5" "CHR ''b''" "''itcoin''" "coinOf ''Ethereum'' 3"
              "CHR ''e''" "''thereum''" True "CHR ''B''" "''itcoin''" "CHR ''E''" "''thereum''"]
        name_order_is_first_byte_only
          [of "\<lambda>s. s" "coinOf ''Bitcoin'' 5" "CHR ''b''" "''itcoin''" "coinOf ''avalanche'' 3"
              "CHR ''a''" "''valanche''" True "CHR ''B''" "''itcoin''" "CHR ''a''" "''valanche''"]
        name_order_is_first_byte_only
          [of "\<lambda>s. s" "coinOf ''Bitcoin'' 5" "CHR ''b''" "''itcoin''" "coinOf ''Binance'' 3"
              "CHR ''b''" "''inance''" True "CHR ''B''" "''itcoin''" "CHR ''B''" "''inance''"]
        name_order_is_first_byte_only
          [of "\<lambda>s. s" "coinOf ''Binance'' 5" "CHR ''b''" "''inance''" "coinOf ''Bitcoin'' 3"
              "CHR ''b''" "''itcoin''" True "CHR ''B''" "''inance''" "CHR ''B''" "''itcoin''"]
        name_order_is_first_byte_only
          [of "\<lambda>s. s" "coinOf ''Bitcoin'' 5" "CHR ''b''" "''itcoin''" "coinOf ''avalanche'' 3"
              "CHR ''a''" "''valanche''" False "CHR ''B''" "''itcoin''" "CHR ''a''" "''valanche''"]
  by (simp add: coinOf_def ToLower_def isASCII_def lowerByte_def isUpper_def)

subsection \<open>A comparison that panics\<close>

lemma insertLeft_panic_or_insert:
  assumes "\<forall>a b. lessf a b = Inl p \<or> (\<exists>v. lessf a b = Inr v)"
  shows "insertLeft lessf x ys = Inl p \<or> (\<exists>zs. insertLeft lessf x ys = Inr zs \<and> zs \<noteq> [])"
proof (induction ys)
  case Nil
  then show ?case by simp
next
  case (Cons y ys)
  from assms have "lessf x y = Inl p \<or> (\<exists>v. lessf x y = Inr v)" by blast
  with Cons show ?case by (auto split: sum.splits)
qed

lemma insertLeft_panic_new:
  "\<forall>y. lessf x y = Inl p \<Longrightarrow> ys \<noteq> [] \<Longrightarrow> insertLeft lessf x ys = Inl p"
  by (cases ys) simp_all

lemma insertLeft_panic_head:
  "\<forall>z. lessf z y = Inl p \<Longrightarrow> insertLeft lessf x (y # ys) = Inl p"
  by simp

lemma insertionLoop_panics:
  assumes all: "\<forall>a b. lessf a b = Inl p \<or> (\<exists>v. lessf a b = Inr v)"
  shows "acc \<noteq> [] \<Longrightarrow> xs \<noteq> [] \<Longrightarrow>
         (\<forall>y. lessf (hd acc) y = Inl p \<and> lessf y (hd acc) = Inl p)
         \<or> (\<exists>x\<in>set xs. \<forall>y. lessf x y = Inl p \<and> lessf y x = Inl p) \<Longrightarrow>
         insertionLoop lessf acc xs = Inl p"
proof (induction xs arbitrary: acc)
  case Nil
  then show ?case by simp
next
  case (Cons x xs)
  obtain y ys where acc: "acc = y # ys" using Cons.prems(1) by (cases acc) auto
  show ?case
  proof (cases "\<forall>z. lessf z y = Inl p")
    case True
    then show ?thesis by (simp add: acc)
  next
    case headOk: False
    show ?thesis
    proof (cases "\<forall>z. lessf x z = Inl p")
      case True
      then have "insertLeft lessf x acc = Inl p"
        using Cons.prems(1) by (rule insertLeft_panic_new)
      then show ?thesis by simp
    next
      case False
      with headOk Cons.prems(3) acc
      have later: "\<exists>x\<in>set xs. \<forall>y. lessf x y = Inl p \<and> lessf y x = Inl p" by auto
      then have ne: "xs \<noteq> []" by auto
      from insertLeft_panic_or_insert[OF all, of x acc]
      show ?thesis
      proof
        assume "insertLeft lessf x acc = Inl p"
        then show ?thesis by simp
      next
        assume "\<exists>zs. insertLeft lessf x acc = Inr zs \<and> zs \<noteq> []"
        then obtain zs where zs: "insertLeft lessf x acc = Inr zs" "zs \<noteq> []" by blast
        have "insertionLoop lessf zs xs = Inl p"
          using zs(2) ne later by (intro Cons.IH) auto
        then show ?thesis by (simp add: zs(1))
      qed
    qed
  qed
qed

lemma insertionSort_panics:
  assumes "\<forall>a b. lessf a b = Inl p \<or> (\<exists>v. lessf a b = Inr v)"
    and "2 \<le> length xs" "\<exists>x\<in>set xs. \<forall>y. lessf x y = Inl p \<and> lessf y x = Inl p"
  shows "insertionSort lessf xs = Inl p"
proof -
  obtain x x' rest where xs: "xs = x # x' # rest"
    using assms(2) by (cases xs; cases "tl xs") auto
  have "insertionLoop lessf [x] (x' # rest) = Inl p"
    using assms(3) by (intro insertionLoop_panics[OF assms(1)]) (auto simp: xs)
  then show ?thesis by (simp add: insertionSort_def xs)
qed

lemma shortLib_sortCompares: "sortCompares shortLib"
  unfolding sortCompares_def shortLib_def
  by (auto intro!: insertionSort_panics)

lemma less_n_panics_iff:
  "less_n ul asc a b = Inl IndexOutOfRange
   \<longleftrightarrow> ToLower ul (Name a) = [] \<or> ToLower ul (Name b) = []"
  by (auto simp: less_n_def firstByte_def split: list.splits)

lemma less_n_panic_or_value:
  "less_n ul asc a b = Inl IndexOutOfRange \<or> (\<exists>v. less_n ul asc a b = Inr v)"
  by (auto simp: less_n_def firstByte_def split: list.splits)

lemma sortRecords_n_panics:
  assumes "sortCompares L" "2 \<le> length (records m)" "\<exists>r\<in>set (records m). Name r = []"
    and "sortBy m = ''n''"
  shows "sortRecords L m = Inl IndexOutOfRange"
proof -
  let ?lessf = "less_n (unicode_ToLower L) (sortAsc m)"
  have "\<exists>x\<in>set (records m). \<forall>y. ?lessf x y = Inl IndexOutOfRange \<and> ?lessf y x = Inl IndexOutOfRange"
  proof -
    from assms(3) obtain r where r: "r \<in> set (records m)" "Name r = []" by blast
    have "\<forall>y. ?lessf r y = Inl IndexOutOfRange \<and> ?lessf y r = Inl IndexOutOfRange"
      by (simp add: less_n_panics_iff r(2) ToLower_Nil)
    with r(1) show ?thesis by blast
  qed
  then have "sort_Slice L ?lessf (records m) = Inl IndexOutOfRange"
    using assms(1,2) less_n_panic_or_value[of "unicode_ToLower L" "sortAsc m"]
    unfolding sortCompares_def by blast
  then show ?thesis by (simp add: sortRecords_def sortSlice_def assms(4))
qed

text \<open>
  C10. The closure of the case \<^verbatim>\<open>n\<close> indexes each lowered name at 0 with no test of its
  length: it panics exactly when one of the two lowered names is empty, and the lowered
  empty name is empty. When every name is non-empty (and the Unicode lowering keeps a
  non-empty string non-empty) the sort by name does not panic. When two or more records
  are sorted and one of them has the empty name, the comparison is reached with it and
  the index is out of range: the sort panics, and so does the handler of the key
  \<^verbatim>\<open>n\<close>. (A single record is never compared.)
\<close>

theorem name_sort_needs_nonempty_names:
  "(less_n ul asc a b = Inl IndexOutOfRange
      \<longleftrightarrow> ToLower ul (Name a) = [] \<or> ToLower ul (Name b) = [])
   \<and> ToLower ul [] = []
   \<and> (sortReturns L \<and> (\<forall>s. s \<noteq> [] \<longrightarrow> unicode_ToLower L s \<noteq> [])
        \<and> (\<forall>r\<in>set (records m). Name r \<noteq> [])
      \<longrightarrow> (\<exists>rs. sortRecords L (m\<lparr>sortBy := ''n''\<rparr>) = Inr (m\<lparr>sortBy := ''n'', records := rs\<rparr>)))
   \<and> (sortCompares L \<and> 2 \<le> length (records m) \<and> (\<exists>r\<in>set (records m). Name r = [])
      \<longrightarrow> sortRecords L (m\<lparr>sortBy := ''n''\<rparr>) = Inl IndexOutOfRange
          \<and> Update L m (KeyMsg ''n'') = Inl IndexOutOfRange)"
proof (intro conjI impI)
  show "less_n ul asc a b = Inl IndexOutOfRange
      \<longleftrightarrow> ToLower ul (Name a) = [] \<or> ToLower ul (Name b) = []"
    by (rule less_n_panics_iff)
  show "ToLower ul [] = []" by (rule ToLower_Nil)
next
  assume h: "sortReturns L \<and> (\<forall>s. s \<noteq> [] \<longrightarrow> unicode_ToLower L s \<noteq> [])
        \<and> (\<forall>r\<in>set (records m). Name r \<noteq> [])"
  then have "\<forall>r\<in>set (records m). ToLower (unicode_ToLower L) (Name r) \<noteq> []"
    using ToLower_nonempty[of "unicode_ToLower L"] by blast
  then show "\<exists>rs. sortRecords L (m\<lparr>sortBy := ''n''\<rparr>) = Inr (m\<lparr>sortBy := ''n'', records := rs\<rparr>)"
    using sortRecords_total[of L "m\<lparr>sortBy := ''n''\<rparr>"] h by simp
next
  assume h: "sortCompares L \<and> 2 \<le> length (records m) \<and> (\<exists>r\<in>set (records m). Name r = [])"
  then show "sortRecords L (m\<lparr>sortBy := ''n''\<rparr>) = Inl IndexOutOfRange"
    by (intro sortRecords_n_panics) simp_all
  have "sortRecords L (toggleSort ''n'' m) = Inl IndexOutOfRange"
    using h by (intro sortRecords_n_panics) (simp_all add: toggleSort_def)
  then show "Update L m (KeyMsg ''n'') = Inl IndexOutOfRange"
    by (simp add: Update_def keySwitch_def sortKeys_def)
qed

text \<open>
  Two coins with names sort by name; a third one with the empty name makes the sort, and
  the handler of \<^verbatim>\<open>n\<close>, panic.
\<close>

theorem name_sort_needs_nonempty_names_witness:
  "(\<exists>rs. sortRecords shortLib ((initialModel emptyTable 0 twoCoins)\<lparr>sortBy := ''n''\<rparr>)
          = Inr ((initialModel emptyTable 0 twoCoins)\<lparr>sortBy := ''n'', records := rs\<rparr>))
   \<and> sortRecords shortLib ((initialModel emptyTable 0 (twoCoins @ [coinOf [] 1]))\<lparr>sortBy := ''n''\<rparr>)
       = Inl IndexOutOfRange
   \<and> Update shortLib (initialModel emptyTable 0 (twoCoins @ [coinOf [] 1])) (KeyMsg ''n'')
       = Inl IndexOutOfRange"
  using name_sort_needs_nonempty_names
          [of "\<lambda>s. s" True "coinOf [] 1" "coinOf [] 1" shortLib "initialModel emptyTable 0 twoCoins"]
        name_sort_needs_nonempty_names
          [of "\<lambda>s. s" True "coinOf [] 1" "coinOf [] 1" shortLib
              "initialModel emptyTable 0 (twoCoins @ [coinOf [] 1])"]
        shortLib_sortReturns shortLib_sortCompares
  by (simp add: initialModel_def twoCoins_def coinOf_def) (simp add: shortLib_def)

section \<open>The view state: pages\<close>

subsection \<open>The two page keys\<close>

lemma Update_right:
  "Update L m (KeyMsg ''right'') =
     (if page m * perPage m < int (length (records m)) then
        (case updateTable (m\<lparr>page := page m + 1\<rparr>) of
           Inl p \<Rightarrow> Inl p
         | Inr m' \<Rightarrow>
             (case table_Update L (KeyMsg ''right'') (table m') of
                (t, c) \<Rightarrow> Inr (m'\<lparr>table := t\<rparr>, c)))
      else
        (case table_Update L (KeyMsg ''right'') (table m) of
           (t, c) \<Rightarrow> Inr (m\<lparr>table := t\<rparr>, c)))"
  by (simp add: Update_def keySwitch_def split: sum.splits)

lemma Update_left:
  "Update L m (KeyMsg ''left'') =
     (if page m > 1 then
        (case updateTable (m\<lparr>page := page m - 1\<rparr>) of
           Inl p \<Rightarrow> Inl p
         | Inr m' \<Rightarrow>
             (case table_Update L (KeyMsg ''left'') (table m') of
                (t, c) \<Rightarrow> Inr (m'\<lparr>table := t\<rparr>, c)))
      else
        (case table_Update L (KeyMsg ''left'') (table m) of
           (t, c) \<Rightarrow> Inr (m\<lparr>table := t\<rparr>, c)))"
  by (simp add: Update_def keySwitch_def split: sum.splits)

lemma Update_right_fields:
  assumes "Update L m (KeyMsg ''right'') = Inr (m', c)"
  shows "page m' = (if page m * perPage m < int (length (records m)) then page m + 1 else page m)
         \<and> perPage m' = perPage m \<and> records m' = records m
         \<and> sortBy m' = sortBy m \<and> sortAsc m' = sortAsc m"
proof (cases "page m * perPage m < int (length (records m))")
  case True
  then obtain m1 where u: "updateTable (m\<lparr>page := page m + 1\<rparr>) = Inr m1"
    using assms by (auto simp: Update_right split: sum.splits)
  then have m': "m' = m1\<lparr>table := fst (table_Update L (KeyMsg ''right'') (table m1))\<rparr>"
    using assms True by (auto simp: Update_right split: prod.splits)
  have "m1 = (m\<lparr>page := page m + 1\<rparr>)\<lparr>table := table m1\<rparr>" using u by (rule updateTable_frame)
  then have "page m1 = page m + 1 \<and> perPage m1 = perPage m \<and> records m1 = records m
             \<and> sortBy m1 = sortBy m \<and> sortAsc m1 = sortAsc m"
    by (metis model.select_convs model.surjective model.update_convs)
  then show ?thesis using True by (simp add: m')
next
  case False
  then show ?thesis using assms by (auto simp: Update_right split: prod.splits)
qed

lemma Update_left_fields:
  assumes "Update L m (KeyMsg ''left'') = Inr (m', c)"
  shows "page m' = (if page m > 1 then page m - 1 else page m)
         \<and> perPage m' = perPage m \<and> records m' = records m
         \<and> sortBy m' = sortBy m \<and> sortAsc m' = sortAsc m"
proof (cases "page m > 1")
  case True
  then obtain m1 where u: "updateTable (m\<lparr>page := page m - 1\<rparr>) = Inr m1"
    using assms by (auto simp: Update_left split: sum.splits)
  then have m': "m' = m1\<lparr>table := fst (table_Update L (KeyMsg ''left'') (table m1))\<rparr>"
    using assms True by (auto simp: Update_left split: prod.splits)
  have "m1 = (m\<lparr>page := page m - 1\<rparr>)\<lparr>table := table m1\<rparr>" using u by (rule updateTable_frame)
  then have "page m1 = page m - 1 \<and> perPage m1 = perPage m \<and> records m1 = records m
             \<and> sortBy m1 = sortBy m \<and> sortAsc m1 = sortAsc m"
    by (metis model.select_convs model.surjective model.update_convs)
  then show ?thesis using True by (simp add: m')
next
  case False
  then show ?thesis using assms by (auto simp: Update_left split: prod.splits)
qed

subsection \<open>The window\<close>

lemma windowEnd_min:
  "windowEnd m = min (page m * perPage m) (int (length (records m)))"
  by (simp add: windowEnd_def windowStart_def Let_def min_def algebra_simps)


text \<open>
  When the two page keys return: \<^verbatim>\<open>right\<close> within the records, and \<^verbatim>\<open>left\<close> above page 1,
  move the page and redraw, and the redrawing returns when the new window starts within
  the records.
\<close>

lemma Update_right_returns:
  assumes "page m * perPage m < int (length (records m))" "0 \<le> perPage m" "0 \<le> page m"
  shows "\<exists>m1. updateTable (m\<lparr>page := page m + 1\<rparr>) = Inr m1
              \<and> Update L m (KeyMsg ''right'')
                  = Inr (m1\<lparr>table := fst (table_Update L (KeyMsg ''right'') (table m1))\<rparr>,
                         snd (table_Update L (KeyMsg ''right'') (table m1)))"
proof -
  let ?m = "m\<lparr>page := page m + 1\<rparr>"
  have s: "windowStart ?m = page m * perPage m" by (simp add: windowStart_def)
  have "0 \<le> windowStart ?m" using assms(2,3) by (simp add: s)
  moreover have "windowStart ?m \<le> windowEnd ?m"
    using assms(1,2) by (simp add: windowEnd_def Let_def s)
  ultimately obtain m1 where u: "updateTable ?m = Inr m1"
    using updateTable_total[of ?m] by blast
  show ?thesis
    using u assms(1) by (simp add: Update_right split: prod.splits)
qed

lemma Update_left_returns:
  assumes "1 < page m" "0 \<le> perPage m" "(page m - 2) * perPage m \<le> int (length (records m))"
  shows "\<exists>m1. updateTable (m\<lparr>page := page m - 1\<rparr>) = Inr m1
              \<and> Update L m (KeyMsg ''left'')
                  = Inr (m1\<lparr>table := fst (table_Update L (KeyMsg ''left'') (table m1))\<rparr>,
                         snd (table_Update L (KeyMsg ''left'') (table m1)))"
proof -
  let ?m = "m\<lparr>page := page m - 1\<rparr>"
  have s: "windowStart ?m = (page m - 2) * perPage m" by (simp add: windowStart_def)
  have "0 \<le> windowStart ?m" using assms(1,2) by (simp add: s)
  moreover have "windowStart ?m \<le> windowEnd ?m"
    using assms(2,3) by (simp add: windowEnd_def Let_def s)
  ultimately obtain m1 where u: "updateTable ?m = Inr m1"
    using updateTable_total[of ?m] by blast
  show ?thesis
    using u assms(1) by (simp add: Update_left split: prod.splits)
qed



subsection \<open>The page stays within the records\<close>

lemma Update_other_key_fields:
  assumes "k \<noteq> ''right''" "k \<noteq> ''left''" "k \<notin> set sortKeys"
    and "Update L m (KeyMsg k) = Inr (m', c)"
  shows "page m' = page m \<and> perPage m' = perPage m \<and> records m' = records m"
  using assms
  by (auto simp: Update_def keySwitch_def split: if_splits option.splits prod.splits)

lemma Update_other_msg_fields:
  assumes "\<forall>k. msg \<noteq> KeyMsg k" "Update L m msg = Inr (m', c)"
  shows "page m' = page m \<and> perPage m' = perPage m \<and> records m' = records m"
  using assms
  by (cases msg) (auto simp: Update_def split: if_splits prod.splits)

lemma Update_sort_key_fields:
  assumes "sortPermutes L" "k \<in> set sortKeys" "Update L m (KeyMsg k) = Inr (m', c)"
  shows "page m' = page m \<and> perPage m' = perPage m \<and> mset (records m') = mset (records m)"
proof -
  obtain rs t where m': "m' = (toggleSort k m)\<lparr>records := rs, table := t\<rparr>"
    and s: "sortRecords L (toggleSort k m) = Inr ((toggleSort k m)\<lparr>records := rs\<rparr>)"
    using Update_sort_key[OF assms(2,3)] by blast
  have "mset rs = mset (records m)"
    using sortRecords_permutes[OF assms(1) s] by (simp add: toggleSort_def)
  then show ?thesis by (simp add: m' toggleSort_def)
qed

lemma pageInRange_same:
  "page m' = page m \<Longrightarrow> perPage m' = perPage m \<Longrightarrow> length (records m') = length (records m) \<Longrightarrow>
   pageInRange m \<Longrightarrow> pageInRange m'"
  unfolding pageInRange_def by auto

lemma pageInRange_step:
  assumes "sortPermutes L" "pageInRange m" "Update L m msg = Inr (m', c)"
  shows "pageInRange m'"
proof (cases "\<exists>k. msg = KeyMsg k")
  case False
  then show ?thesis
    using Update_other_msg_fields[of msg L m m' c] assms(2,3) by (intro pageInRange_same[of m' m]) auto
next
  case True
  then obtain k where msg: "msg = KeyMsg k" by blast
  consider (right) "k = ''right''" | (left) "k = ''left''" | (sort) "k \<in> set sortKeys"
    | (other) "k \<noteq> ''right''" "k \<noteq> ''left''" "k \<notin> set sortKeys"
    by blast
  then show ?thesis
  proof cases
    case right
    then show ?thesis
      using Update_right_fields[of L m m' c] assms(2,3) msg
      by (auto simp: pageInRange_def split: if_splits)
  next
    case left
    have "(page m - 2) * 50 \<le> (page m - 1) * 50" by simp
    then show ?thesis
      using Update_left_fields[of L m m' c] assms(2,3) msg left
      by (auto simp: pageInRange_def split: if_splits)
  next
    case sort
    have "length (records m') = length (records m)"
      using Update_sort_key_fields[OF assms(1) sort, of m m' c] assms(3) msg
      by (metis size_mset)
    then show ?thesis
      using Update_sort_key_fields[OF assms(1) sort, of m m' c] assms(2,3) msg
      by (intro pageInRange_same[of m' m]) auto
  next
    case other
    then show ?thesis
      using Update_other_key_fields[of k L m m' c] assms(2,3) msg
      by (intro pageInRange_same[of m' m]) auto
  qed
qed

lemma reachable_pageInRange: "reachable L m \<Longrightarrow> sortPermutes L \<Longrightarrow> pageInRange m"
proof (induction rule: reachable.induct)
  case (start t sp rs)
  then show ?case by (simp add: pageInRange_def initialModel_def)
next
  case (step m msg m' c)
  then show ?case using pageInRange_step by blast
qed

lemma pageInRange_window:
  assumes "pageInRange m"
  shows "0 \<le> windowStart m" and "windowStart m \<le> windowEnd m"
proof -
  have p: "perPage m = 50" "1 \<le> page m"
    "page m = 1 \<or> (page m - 1) * 50 < int (length (records m))"
    using assms by (auto simp: pageInRange_def)
  show "0 \<le> windowStart m" using p by (simp add: windowStart_def)
  show "windowStart m \<le> windowEnd m"
    using p by (auto simp: windowStart_def windowEnd_def Let_def)
qed

text \<open>
  From a state within its records every page key returns, every sort key returns when
  the comparison does, and whatever the message, a panic of the handler is a panic of
  the comparison: the slice of \<^verbatim>\<open>updateTable\<close> is never out of range.
\<close>

lemma insertLeft_panic_source:
  "insertLeft lessf x ys = Inl p \<Longrightarrow> \<exists>y\<in>set ys. lessf x y = Inl p"
  by (induction ys) (auto split: sum.splits if_splits)

lemma insertionLoop_panic_source:
  "insertionLoop lessf acc xs = Inl p \<Longrightarrow>
   \<exists>a\<in>set acc \<union> set xs. \<exists>b\<in>set acc \<union> set xs. lessf a b = Inl p"
proof (induction xs arbitrary: acc)
  case Nil
  then show ?case by simp
next
  case (Cons x xs)
  show ?case
  proof (cases "insertLeft lessf x acc")
    case (Inl q)
    then have "q = p" using Cons.prems by simp
    then show ?thesis using insertLeft_panic_source[of lessf x acc p] Inl by auto
  next
    case (Inr acc')
    then have "set acc' = insert x (set acc)"
      by (metis insertLeft_mset set_mset_add_mset_insert set_mset_mset)
    moreover have "insertionLoop lessf acc' xs = Inl p" using Cons.prems Inr by simp
    ultimately show ?thesis using Cons.IH[of acc'] by auto
  qed
qed

lemma shortLib_sortPanicsInLess: "sortPanicsInLess shortLib"
  unfolding sortPanicsInLess_def shortLib_def
  using insertionLoop_panic_source[of _ "[]"] by (auto simp: insertionSort_def)

lemma sortSlice_panic:
  "sortPanicsInLess L \<Longrightarrow> sortSlice L lessf m = Inl p \<Longrightarrow> \<exists>a b. lessf a b = Inl p"
proof -
  assume c: "sortPanicsInLess L" and s: "sortSlice L lessf m = Inl p"
  from s have "sort_Slice L lessf (records m) = Inl p"
    by (auto simp: sortSlice_def split: sum.splits)
  with c show ?thesis unfolding sortPanicsInLess_def by blast
qed

lemma sortRecords_panic:
  assumes "sortPanicsInLess L" "sortRecords L m = Inl p"
  shows "p = IndexOutOfRange"
proof -
  have "\<exists>lessf. sortSlice L lessf m = Inl p
          \<and> (\<forall>a b. lessf a b = Inl IndexOutOfRange \<or> (\<exists>v. lessf a b = Inr v))"
    using assms(2) less_n_panic_or_value[of "unicode_ToLower L" "sortAsc m"]
    by (auto simp: sortRecords_def less_r_def less_p_def less_1_def less_2_def less_7_def
          less_m_def less_a_def less_t_def split: if_splits)
  then obtain lessf where s: "sortSlice L lessf m = Inl p"
    and v: "\<forall>a b. lessf a b = Inl IndexOutOfRange \<or> (\<exists>v. lessf a b = Inr v)" by blast
  from sortSlice_panic[OF assms(1) s] obtain a b where "lessf a b = Inl p" by blast
  with v show ?thesis by (metis Inl_Inr_False sum.inject(1))
qed

lemma pageInRange_right_returns:
  assumes "pageInRange m"
  shows "\<exists>m' c. Update L m (KeyMsg ''right'') = Inr (m', c)"
proof (cases "page m * perPage m < int (length (records m))")
  case True
  then show ?thesis
    using Update_right_returns[of m L] assms by (auto simp: pageInRange_def)
next
  case False
  then show ?thesis by (simp add: Update_right split: prod.splits)
qed

lemma pageInRange_left_returns:
  assumes "pageInRange m"
  shows "\<exists>m' c. Update L m (KeyMsg ''left'') = Inr (m', c)"
proof (cases "1 < page m")
  case True
  have "(page m - 2) * 50 \<le> (page m - 1) * 50" by simp
  then have "(page m - 2) * perPage m \<le> int (length (records m))"
    using True assms by (auto simp: pageInRange_def)
  then show ?thesis
    using Update_left_returns[of m L] True assms by (auto simp: pageInRange_def)
next
  case False
  then show ?thesis by (simp add: Update_left split: prod.splits)
qed

lemma pageInRange_sort_returns:
  assumes "pageInRange m" "sortPermutes L" "sortReturns L" "k \<in> set sortKeys"
    and "k = ''n'' \<longrightarrow> (\<forall>r\<in>set (records m). ToLower (unicode_ToLower L) (Name r) \<noteq> [])"
  shows "\<exists>m' c. Update L m (KeyMsg k) = Inr (m', c)"
  using Update_sort_key_total[OF assms(4,3,2,5)] pageInRange_window[OF assms(1)] by blast

lemma pageInRange_no_slice_panic:
  assumes "pageInRange m" "sortPermutes L" "sortPanicsInLess L"
  shows "Update L m msg \<noteq> Inl SliceBoundsOutOfRange"
proof (cases "\<exists>k. msg = KeyMsg k")
  case False
  then show ?thesis by (cases msg) (auto simp: Update_def split: prod.splits)
next
  case True
  then obtain k where msg: "msg = KeyMsg k" by blast
  consider (right) "k = ''right''" | (left) "k = ''left''" | (sort) "k \<in> set sortKeys"
    | (other) "k \<noteq> ''right''" "k \<noteq> ''left''" "k \<notin> set sortKeys"
    by blast
  then show ?thesis
  proof cases
    case right
    then show ?thesis using pageInRange_right_returns[OF assms(1), of L] msg by auto
  next
    case left
    then show ?thesis using pageInRange_left_returns[OF assms(1), of L] msg by auto
  next
    case sort
    have k: "k \<noteq> ''esc''" "k \<noteq> ''q''" "k \<noteq> ''ctrl+c''" "k \<noteq> ''enter''" "k \<noteq> ''right''" "k \<noteq> ''left''"
      using sort by (auto simp: sortKeys_def)
    show ?thesis
    proof (cases "sortRecords L (toggleSort k m)")
      case (Inl p)
      then have "p = IndexOutOfRange" using sortRecords_panic[OF assms(3)] by blast
      then show ?thesis using Inl k sort msg by (simp add: Update_def keySwitch_def)
    next
      case (Inr m1)
      have fr: "m1 = (toggleSort k m)\<lparr>records := records m1\<rparr>" using Inr by (rule sortRecords_frame)
      have "mset (records m1) = mset (records m)"
        using sortRecords_permutes[OF assms(2) Inr] by (simp add: toggleSort_def)
      then have len: "length (records m1) = length (records m)" by (metis size_mset)
      have "page m1 = page m \<and> perPage m1 = perPage m"
        by (subst fr, subst (2) fr) (simp add: toggleSort_def)
      then have "pageInRange m1"
        using len assms(1) by (intro pageInRange_same[of m1 m]) auto
      then obtain m2 where "updateTable m1 = Inr m2"
        using updateTable_total[of m1] pageInRange_window[of m1] by blast
      then show ?thesis using Inr k sort msg
        by (simp add: Update_def keySwitch_def split: prod.splits)
    qed
  next
    case other
    then show ?thesis using msg
      by (auto simp: Update_def keySwitch_def split: option.splits prod.splits)
  qed
qed

text \<open>
  C8. In every state of the program, where \<^verbatim>\<open>sort.Slice\<close> only permutes the slice it is
  given: the start \<open>(page - 1) * perPage\<close> of the window is not negative, its end
  \<open>min (page * perPage) (len(records))\<close> is at most the number of records and not before
  the start, and these are the bounds \<^verbatim>\<open>updateTable\<close> slices with, so that
  \<^verbatim>\<open>updateTable\<close> returns. The states are those the handler returns, a panic ending the
  program; and from each of them the handler of \<^verbatim>\<open>right\<close> returns, the handler of
  \<^verbatim>\<open>left\<close> returns, the handler of a sort key returns where \<^verbatim>\<open>sort.Slice\<close> returns when the
  comparison does (for key \<^verbatim>\<open>n\<close>: where no lowered name is empty), and the handler of no
  message panics with a slice out of range, where a panic of \<^verbatim>\<open>sort.Slice\<close> is a panic
  of the comparison.
\<close>

theorem reachable_window_within_bounds:
  "sortPermutes L \<and> reachable L m
   \<longrightarrow> 0 \<le> (page m - 1) * perPage m
       \<and> min (page m * perPage m) (int (length (records m))) \<le> int (length (records m))
       \<and> (page m - 1) * perPage m \<le> min (page m * perPage m) (int (length (records m)))
       \<and> windowStart m = (page m - 1) * perPage m
       \<and> windowEnd m = min (page m * perPage m) (int (length (records m)))
       \<and> (\<exists>m'. updateTable m = Inr m')
       \<and> (\<exists>m' c. Update L m (KeyMsg ''right'') = Inr (m', c))
       \<and> (\<exists>m' c. Update L m (KeyMsg ''left'') = Inr (m', c))
       \<and> (sortReturns L \<and> k \<in> set sortKeys
            \<and> (k = ''n'' \<longrightarrow> (\<forall>r\<in>set (records m). ToLower (unicode_ToLower L) (Name r) \<noteq> []))
          \<longrightarrow> (\<exists>m' c. Update L m (KeyMsg k) = Inr (m', c)))
       \<and> (sortPanicsInLess L \<longrightarrow> Update L m msg \<noteq> Inl SliceBoundsOutOfRange)"
proof
  assume h: "sortPermutes L \<and> reachable L m"
  then have inv: "pageInRange m" using reachable_pageInRange by blast
  have s: "windowStart m = (page m - 1) * perPage m" by (simp add: windowStart_def)
  have e: "windowEnd m = min (page m * perPage m) (int (length (records m)))"
    by (rule windowEnd_min)
  have b: "0 \<le> windowStart m" "windowStart m \<le> windowEnd m"
    using pageInRange_window[OF inv] by simp_all
  have u: "\<exists>m'. updateTable m = Inr m'" using b by (rule updateTable_total)
  have bounds: "0 \<le> (page m - 1) * perPage m
       \<and> min (page m * perPage m) (int (length (records m))) \<le> int (length (records m))
       \<and> (page m - 1) * perPage m \<le> min (page m * perPage m) (int (length (records m)))
       \<and> windowStart m = (page m - 1) * perPage m
       \<and> windowEnd m = min (page m * perPage m) (int (length (records m)))"
    using b unfolding e s by simp
  have r: "\<exists>m' c. Update L m (KeyMsg ''right'') = Inr (m', c)"
    using inv by (rule pageInRange_right_returns)
  have l: "\<exists>m' c. Update L m (KeyMsg ''left'') = Inr (m', c)"
    using inv by (rule pageInRange_left_returns)
  have srt: "sortReturns L \<and> k \<in> set sortKeys
            \<and> (k = ''n'' \<longrightarrow> (\<forall>r\<in>set (records m). ToLower (unicode_ToLower L) (Name r) \<noteq> []))
          \<longrightarrow> (\<exists>m' c. Update L m (KeyMsg k) = Inr (m', c))"
    using pageInRange_sort_returns[OF inv, of L k] h by blast
  have np: "sortPanicsInLess L \<longrightarrow> Update L m msg \<noteq> Inl SliceBoundsOutOfRange"
    using pageInRange_no_slice_panic[OF inv, of L msg] h by blast
  from bounds u r l srt np
  show "0 \<le> (page m - 1) * perPage m
       \<and> min (page m * perPage m) (int (length (records m))) \<le> int (length (records m))
       \<and> (page m - 1) * perPage m \<le> min (page m * perPage m) (int (length (records m)))
       \<and> windowStart m = (page m - 1) * perPage m
       \<and> windowEnd m = min (page m * perPage m) (int (length (records m)))
       \<and> (\<exists>m'. updateTable m = Inr m')
       \<and> (\<exists>m' c. Update L m (KeyMsg ''right'') = Inr (m', c))
       \<and> (\<exists>m' c. Update L m (KeyMsg ''left'') = Inr (m', c))
       \<and> (sortReturns L \<and> k \<in> set sortKeys
            \<and> (k = ''n'' \<longrightarrow> (\<forall>r\<in>set (records m). ToLower (unicode_ToLower L) (Name r) \<noteq> []))
          \<longrightarrow> (\<exists>m' c. Update L m (KeyMsg k) = Inr (m', c)))
       \<and> (sortPanicsInLess L \<longrightarrow> Update L m msg \<noteq> Inl SliceBoundsOutOfRange)"
    by (intro conjI) blast+
qed

text \<open>
  Such a state: 120 copies of one coin after two presses of \<^verbatim>\<open>right\<close>. It is on page 3,
  its window runs from 100 to 120, and \<^verbatim>\<open>right\<close>, \<^verbatim>\<open>left\<close> and the sort key \<^verbatim>\<open>m\<close> return
  from it.
\<close>

theorem reachable_window_within_bounds_witness:
  "\<exists>m. reachable shortLib m \<and> length (records m) = 120 \<and> page m = 3
       \<and> windowStart m = 100 \<and> windowEnd m = 120 \<and> (\<exists>m'. updateTable m = Inr m')
       \<and> (\<exists>m' c. Update shortLib m (KeyMsg ''right'') = Inr (m', c))
       \<and> (\<exists>m' c. Update shortLib m (KeyMsg ''left'') = Inr (m', c))
       \<and> (\<exists>m' c. Update shortLib m (KeyMsg ''m'') = Inr (m', c))
       \<and> Update shortLib m (KeyMsg ''n'') \<noteq> Inl SliceBoundsOutOfRange"
proof -
  let ?m = "initialModel emptyTable 0 (replicate 120 (coinOf ''Bitcoin'' 5))"
  have f: "length (records ?m) = 120" "perPage ?m = 50" "page ?m = 1"
    by (simp_all add: initialModel_def)
  have start: "reachable shortLib ?m" by (rule reachable.start)
  obtain m2 c2 where r1: "Update shortLib ?m (KeyMsg ''right'') = Inr (m2, c2)"
    using reachable_window_within_bounds[of shortLib ?m] shortLib_sortPermutes start by blast
  have reach2: "reachable shortLib m2" using reachable.step[OF start r1] .
  have f2: "page m2 = 2" "perPage m2 = 50" "length (records m2) = 120"
    using Update_right_fields[OF r1] f by simp_all
  obtain m3 c3 where r2: "Update shortLib m2 (KeyMsg ''right'') = Inr (m3, c3)"
    using reachable_window_within_bounds[of shortLib m2] shortLib_sortPermutes reach2 by blast
  have reach3: "reachable shortLib m3" using reachable.step[OF reach2 r2] .
  have f3: "page m3 = 3" "perPage m3 = 50" "length (records m3) = 120"
    using Update_right_fields[OF r2] f2 by simp_all
  have key: "''m'' \<in> set sortKeys" by (simp add: sortKeys_def)
  have "windowStart m3 = 100 \<and> windowEnd m3 = 120 \<and> (\<exists>m'. updateTable m3 = Inr m')
       \<and> (\<exists>m' c. Update shortLib m3 (KeyMsg ''right'') = Inr (m', c))
       \<and> (\<exists>m' c. Update shortLib m3 (KeyMsg ''left'') = Inr (m', c))
       \<and> (\<exists>m' c. Update shortLib m3 (KeyMsg ''m'') = Inr (m', c))
       \<and> Update shortLib m3 (KeyMsg ''n'') \<noteq> Inl SliceBoundsOutOfRange"
    using reachable_window_within_bounds[of shortLib m3 "''m''" "KeyMsg ''n''"]
      shortLib_sortPermutes shortLib_sortReturns shortLib_sortPanicsInLess reach3 key
    by (simp add: f3)
  with reach3 f3 show ?thesis by blast
qed

end
